theory Spec2Isabelle
  imports Main "HOL-Library.Word" "HOL-Library.Monad_Syntax"
begin

section \<open>Strings of the host toolkit\<close>

text \<open>
  The previewer of \<^verbatim>\<open>src/vimagepreviewer.cpp\<close> works on a rich-text document of the
  Qt toolkit. A \<^verbatim>\<open>QChar\<close> is one UTF-16 code unit, a \<^verbatim>\<open>QString\<close> a sequence of them.
\<close>

type_synonym qchar = "16 word"
type_synonym qstring = "qchar list"
type_synonym qbytearray = "8 word list"

text \<open>A decoded, non-null \<^verbatim>\<open>QImage\<close>; a null image is the value \<open>None\<close> of \<open>qimage option\<close>.\<close>

datatype qimage = Picture nat

definition fromLatin1 :: "string \<Rightarrow> qstring" where
  "fromLatin1 s = map of_char s"

text \<open>\<^verbatim>\<open>QChar::ObjectReplacementCharacter\<close>, U+FFFC: the character that stands for an
  inline image in a block's text.\<close>

definition ObjectReplacementCharacter :: qchar where
  "ObjectReplacementCharacter = 0xFFFC"

text \<open>\<^verbatim>\<open>QChar::isSpace\<close>: the separator categories Zs, Zl, Zp and the controls
  U+0009..U+000D, U+0085.\<close>

definition isSpace :: "qchar \<Rightarrow> bool" where
  "isSpace c \<longleftrightarrow>
     c = 0x20 \<or> (0x09 \<le> c \<and> c \<le> 0x0D) \<or> c = 0x85 \<or> c = 0xA0 \<or> c = 0x1680 \<or>
     (0x2000 \<le> c \<and> c \<le> 0x200A) \<or> c = 0x2028 \<or> c = 0x2029 \<or> c = 0x202F \<or>
     c = 0x205F \<or> c = 0x3000"

text \<open>\<^verbatim>\<open>QString::trimmed\<close>: the string without the whitespace at its two ends.\<close>

definition trimmed :: "qstring \<Rightarrow> qstring" where
  "trimmed s = rev (dropWhile isSpace (rev (dropWhile isSpace s)))"

text \<open>\<^verbatim>\<open>QString::indexOf(QChar)\<close>: the first position of the character, or -1.\<close>

definition indexOf :: "qstring \<Rightarrow> qchar \<Rightarrow> int" where
  "indexOf s c = (if c \<in> set s then int (length (takeWhile (\<lambda>x. x \<noteq> c) s)) else - 1)"

section \<open>The regular expression of fetchImageUrlToPreview\<close>

text \<open>
  The source builds \<^verbatim>\<open>QRegExp("\\!\\[[^\\]]*\\]\\(([^\\)]+)\\)")\<close>, that is the pattern
  \<^verbatim>\<open>\!\[[^\]]*\]\(([^\)]+)\)\<close>. \<open>lit\<close> matches one literal character at the head of
  the input and returns the rest.
\<close>

fun lit :: "qchar \<Rightarrow> qstring \<Rightarrow> qstring option" where
  "lit c [] = None"
| "lit c (x # xs) = (if x = c then Some xs else None)"

text \<open>
  The pattern matched at the head of the input; the result is the text of capture
  group 1. A starred or plussed negated class followed by the excluded character can
  only end at the first occurrence of that character, so the greedy match is the one
  that runs to it.
\<close>

definition matchHere :: "qstring \<Rightarrow> qstring option" where
  "matchHere s = do {
     s1 \<leftarrow> lit 0x21 s;
     s2 \<leftarrow> lit 0x5B s1;
     s3 \<leftarrow> lit 0x5D (dropWhile (\<lambda>c. c \<noteq> 0x5D) s2);
     s4 \<leftarrow> lit 0x28 s3;
     let cap = takeWhile (\<lambda>c. c \<noteq> 0x29) s4;
     _ \<leftarrow> (if cap = [] then None else Some ());
     _ \<leftarrow> lit 0x29 (dropWhile (\<lambda>c. c \<noteq> 0x29) s4);
     Some cap
   }"

text \<open>The positions of the text at which the pattern matches, in ascending order.\<close>

definition matchPositions :: "qstring \<Rightarrow> nat list" where
  "matchPositions s = filter (\<lambda>i. matchHere (drop i s) \<noteq> None) [0..<length s]"

text \<open>\<^verbatim>\<open>QRegExp::indexIn\<close>: the first position with a match, searching forward from 0,
  or -1.\<close>

definition indexIn :: "qstring \<Rightarrow> int" where
  "indexIn s = (case matchPositions s of [] \<Rightarrow> - 1 | i # _ \<Rightarrow> int i)"

text \<open>\<^verbatim>\<open>QRegExp::lastIndexIn\<close>: the first position with a match, searching backward
  from the last character, or -1.\<close>

definition lastIndexIn :: "qstring \<Rightarrow> int" where
  "lastIndexIn s = (case rev (matchPositions s) of [] \<Rightarrow> - 1 | i # _ \<Rightarrow> int i)"

text \<open>\<^verbatim>\<open>regExp.capturedTexts()[1]\<close> after a search that matched at position \<open>i\<close>.\<close>

definition capturedText1 :: "qstring \<Rightarrow> int \<Rightarrow> qstring" where
  "capturedText1 s i = (case matchHere (drop (nat i) s) of None \<Rightarrow> [] | Some cap \<Rightarrow> cap)"

definition fetchImageUrlToPreview :: "qstring \<Rightarrow> qstring" where
  "fetchImageUrlToPreview p_text =
     (let index = indexIn p_text in
      if index = - 1 then []
      else let lastIndex = lastIndexIn p_text in
        if lastIndex \<noteq> index then [] else capturedText1 p_text lastIndex)"

section \<open>The document, the host and the previewer\<close>

text \<open>
  A \<^verbatim>\<open>QTextImageFormat\<close> as the previewer uses it: the name of the image resource and
  the property \<^verbatim>\<open>ImagePath\<close> (the empty string when the property is not set).
\<close>

record imageFormat =
  fmtName :: qstring
  fmtImagePath :: qstring

text \<open>
  A character of the document with its character format read through
  \<^verbatim>\<open>toImageFormat()\<close>: \<open>None\<close> when the format is no image format (\<^verbatim>\<open>isValid()\<close> is
  false). A block (\<^verbatim>\<open>QTextBlock\<close>) is one line, and the document is the list of its
  blocks. A \<^verbatim>\<open>QTextBlock\<close> handle is the index of the block in that list; it is valid
  when the index is inside the list.
\<close>

type_synonym cell = "qchar \<times> imageFormat option"
type_synonym block = "cell list"

definition blockText :: "block \<Rightarrow> qstring" where
  "blockText b = map fst b"

text \<open>
  What the previewer reads from outside: the configuration (\<^verbatim>\<open>vconfig\<close>), the file
  system seen from the note's base path (\<^verbatim>\<open>QFileInfo(m_file->retriveBasePath(), url)\<close>),
  \<^verbatim>\<open>QUrl(url).toString()\<close>, \<^verbatim>\<open>QFileInfo(path).exists()\<close>, the two image decoders
  \<^verbatim>\<open>QImage(path)\<close> and \<^verbatim>\<open>QImage::fromData\<close>, and the character attributes the
  toolkit computes for the text of a block from its Unicode tables:
  \<open>graphemeBoundary w text i\<close> is \<^verbatim>\<open>attributes[i].graphemeBoundary\<close> of the block's text
  layout, true when a grapheme cluster of the text starts at position \<open>i\<close>. A character
  that extends the one before it (a combining mark, a joiner, a low surrogate) starts
  no cluster.
\<close>

record world =
  getEnablePreviewImages :: bool
  relativeExists :: "qstring \<Rightarrow> bool"
  relativeIsNativePath :: "qstring \<Rightarrow> bool"
  relativeAbsoluteFilePath :: "qstring \<Rightarrow> qstring"
  urlToString :: "qstring \<Rightarrow> qstring"
  fileExists :: "qstring \<Rightarrow> bool"
  loadImage :: "qstring \<Rightarrow> qimage option"
  fromData :: "qbytearray \<Rightarrow> qimage option"
  graphemeBoundary :: "qstring \<Rightarrow> nat \<Rightarrow> bool"

text \<open>
  The members of \<^verbatim>\<open>VImagePreviewer\<close> and the parts of the editor it touches:
  \<open>blocks\<close> and \<open>resources\<close> are \<^verbatim>\<open>m_document\<close> (its blocks and its image resources),
  \<open>modified\<close> is \<^verbatim>\<open>m_edit->isModified()\<close>, \<open>editBlock\<close> counts the open
  \<^verbatim>\<open>beginEditBlock\<close> calls, \<open>undoSteps\<close> counts the operations the undo history holds
  (\<open>editBlockDirty\<close>: the open edit block already holds a change), \<open>timerActive\<close> is
  \<^verbatim>\<open>m_timer\<close>, \<open>downloads\<close> the requests given to \<^verbatim>\<open>m_downloader\<close>, and
  \<open>statusChanged\<close> counts the emitted \<^verbatim>\<open>statusChanged\<close> signals.
\<close>

record previewer =
  blocks :: "block list"
  resources :: "qstring \<rightharpoonup> qimage"
  modified :: bool
  editBlock :: nat
  editBlockDirty :: bool
  undoSteps :: nat
  m_enablePreview :: bool
  m_isPreviewing :: bool
  m_requestCearBlocks :: bool
  m_requestRefreshBlocks :: bool
  m_imageCache :: "qstring \<rightharpoonup> qstring"
  timerActive :: bool
  downloads :: "qstring list"
  statusChanged :: nat

text \<open>
  \<^verbatim>\<open>V_ASSERT\<close> is declared in \<^verbatim>\<open>utils/vutils.h\<close>, which is not among the sources; it is
  taken as an assertion that is checked in every build: a false condition ends the
  program. A function that can reach one returns an option, \<open>None\<close> for the abort.
\<close>

definition V_ASSERT :: "bool \<Rightarrow> unit option" where
  "V_ASSERT cond = (if cond then Some () else None)"

subsection \<open>The editing primitives of the document\<close>

text \<open>The slot connected to \<^verbatim>\<open>QTextDocument::contentsChange\<close>: it restarts the timer.\<close>

definition handleContentChange :: "previewer \<Rightarrow> int \<Rightarrow> int \<Rightarrow> int \<Rightarrow> previewer" where
  "handleContentChange st p_position p_charsRemoved p_charsAdded =
     (if p_charsRemoved = 0 \<and> p_charsAdded = 0 then st
      else st\<lparr>timerActive := True\<rparr>)"

text \<open>
  What every change of the document's content or formats does besides the change
  itself: the document becomes modified, the undo history gets a new operation unless
  the change joins the one of an open edit block, and \<^verbatim>\<open>contentsChange\<close> is emitted.
\<close>

definition documentChanged :: "previewer \<Rightarrow> int \<Rightarrow> int \<Rightarrow> previewer" where
  "documentChanged st charsRemoved charsAdded =
     handleContentChange
       (st\<lparr>modified := True,
           undoSteps := (if 0 < editBlock st \<and> editBlockDirty st then undoSteps st
                         else Suc (undoSteps st)),
           editBlockDirty := True\<rparr>) 0 charsRemoved charsAdded"

definition beginEditBlock :: "previewer \<Rightarrow> previewer" where
  "beginEditBlock st =
     st\<lparr>editBlockDirty := (0 < editBlock st \<and> editBlockDirty st), editBlock := Suc (editBlock st)\<rparr>"

definition endEditBlock :: "previewer \<Rightarrow> previewer" where
  "endEditBlock st = st\<lparr>editBlock := editBlock st - 1\<rparr>"

definition setModified :: "previewer \<Rightarrow> bool \<Rightarrow> previewer" where
  "setModified st m = st\<lparr>modified := m\<rparr>"

text \<open>
  \<^verbatim>\<open>cursor.select(QTextCursor::BlockUnderCursor); cursor.removeSelectedText()\<close>: a
  block without content selects nothing, and nothing is removed. Otherwise the
  selection runs from the end of the previous block to the end of this block, so the
  block disappears; the first block of a document has no previous block, only its
  content is selected and the block stays, empty.
\<close>

definition removeSelectedBlock :: "previewer \<Rightarrow> nat \<Rightarrow> previewer" where
  "removeSelectedBlock st i =
     (let bs = blocks st in
      if length bs \<le> i then st
      else if bs ! i = [] then st
      else if i = 0 then
        documentChanged (st\<lparr>blocks := bs[0 := []]\<rparr>) (int (length (bs ! 0))) 0
      else documentChanged (st\<lparr>blocks := take i bs @ drop (Suc i) bs\<rparr>)
             (int (length (bs ! i)) + 1) 0)"

text \<open>
  \<^verbatim>\<open>QTextLayout::nextCursorPosition(oldPos, SkipCharacters)\<close> in a block with the text
  \<open>text\<close>: the position moves on by one and then over every position that starts no
  grapheme cluster; behind the last character it stays where it is.
\<close>

definition nextCursorPosition :: "world \<Rightarrow> qstring \<Rightarrow> nat \<Rightarrow> nat" where
  "nextCursorPosition w text' oldPos =
     (if length text' \<le> oldPos then oldPos
      else Suc oldPos +
           length (takeWhile (\<lambda>j. \<not> graphemeBoundary w text' j) [Suc oldPos..<length text']))"

text \<open>
  \<^verbatim>\<open>cursor.setPosition(blockPos + pos); cursor.deleteChar()\<close> inside block \<open>i\<close>. Without a
  selection \<^verbatim>\<open>QTextCursor::deleteChar\<close> removes the text between the cursor and the next
  cursor position, that is the whole grapheme cluster that starts at the cursor: the
  character there and the characters that extend it. Every character of the model has
  a plain or an image format, so the cursor may delete it. The previewer puts the
  cursor before a character of the block only; at any other position of the model
  nothing is removed.
\<close>

definition deleteChar :: "world \<Rightarrow> previewer \<Rightarrow> nat \<Rightarrow> nat \<Rightarrow> previewer" where
  "deleteChar w st i pos =
     (let b = blocks st ! i;
          anchor = nextCursorPosition w (blockText b) pos in
      if anchor = pos then st
      else documentChanged (st\<lparr>blocks := (blocks st)[i := take pos b @ drop anchor b]\<rparr>)
             (int (anchor - pos)) 0)"

text \<open>\<^verbatim>\<open>cursor.movePosition(QTextCursor::EndOfBlock); cursor.insertBlock()\<close> in block
  \<open>i\<close>: a new empty block right after it.\<close>

definition insertBlock :: "previewer \<Rightarrow> nat \<Rightarrow> previewer" where
  "insertBlock st i =
     (let bs = blocks st in
      documentChanged (st\<lparr>blocks := take (Suc i) bs @ [[]] @ drop (Suc i) bs\<rparr>) 0 1)"

text \<open>\<^verbatim>\<open>cursor.insertImage(imgFormat)\<close> with the cursor at the end of block \<open>i\<close>.\<close>

definition insertImage :: "previewer \<Rightarrow> nat \<Rightarrow> imageFormat \<Rightarrow> previewer" where
  "insertImage st i imgFormat =
     (let b = blocks st ! i in
      documentChanged
        (st\<lparr>blocks := (blocks st)[i := b @ [(ObjectReplacementCharacter, Some imgFormat)]]\<rparr>) 0 1)"

text \<open>\<^verbatim>\<open>cursor.setCharFormat(p_format)\<close> with the character at \<open>pos\<close> of block \<open>i\<close>
  selected.\<close>

definition setCharFormat :: "previewer \<Rightarrow> nat \<Rightarrow> nat \<Rightarrow> imageFormat \<Rightarrow> previewer" where
  "setCharFormat st i pos p_format =
     (let b = blocks st ! i in
      documentChanged (st\<lparr>blocks := (blocks st)[i := b[pos := (fst (b ! pos), Some p_format)]]\<rparr>) 1 1)"

text \<open>
  A \<^verbatim>\<open>QTextBlock\<close> handle taken before an edit names the same block after it. In the
  list of blocks, the index of a block behind the edited place drops by the number of
  blocks the edit removed.
\<close>

definition handleAfter :: "previewer \<Rightarrow> previewer \<Rightarrow> nat \<Rightarrow> nat" where
  "handleAfter st st' j = j - (length (blocks st) - length (blocks st'))"

section \<open>The member functions of VImagePreviewer\<close>

definition isImagePreviewBlock :: "previewer \<Rightarrow> nat \<Rightarrow> bool" where
  "isImagePreviewBlock st p_block =
     (if \<not> p_block < length (blocks st) then False
      else trimmed (blockText (blocks st ! p_block)) = [ObjectReplacementCharacter])"

definition fetchImagePathToPreview :: "world \<Rightarrow> qstring \<Rightarrow> qstring" where
  "fetchImagePathToPreview w p_text =
     (let imageUrl = fetchImageUrlToPreview p_text in
      if imageUrl = [] then imageUrl
      else if relativeExists w imageUrl then
        (if relativeIsNativePath w imageUrl then relativeAbsoluteFilePath w imageUrl
         else imageUrl)
      else urlToString w imageUrl)"

text \<open>
  The cursor is moved right behind the first placeholder character of the block and
  \<^verbatim>\<open>cursor.charFormat().toImageFormat()\<close> is the format of the character before the
  cursor. Without a placeholder the result is \<^verbatim>\<open>QTextImageFormat()\<close>, an image format
  with no name and no property.
\<close>

definition fetchFormatFromPreviewBlock :: "previewer \<Rightarrow> nat \<Rightarrow> imageFormat option" where
  "fetchFormatFromPreviewBlock st p_block =
     (let b = blocks st ! p_block;
          shift = indexOf (blockText b) ObjectReplacementCharacter in
      if 0 \<le> shift then snd (b ! nat shift)
      else Some \<lparr>fmtName = [], fmtImagePath = []\<rparr>)"

definition fetchImagePathFromPreviewBlock :: "previewer \<Rightarrow> nat \<Rightarrow> qstring" where
  "fetchImagePathFromPreviewBlock st p_block =
     (case fetchFormatFromPreviewBlock st p_block of
        None \<Rightarrow> []
      | Some format \<Rightarrow> fmtImagePath format)"

definition isValidImagePreviewBlock :: "world \<Rightarrow> previewer \<Rightarrow> nat \<Rightarrow> bool" where
  "isValidImagePreviewBlock w st p_block =
     (if \<not> isImagePreviewBlock st p_block then False
      else if 0 < p_block then
        (let imagePath = fetchImagePathToPreview w (blockText (blocks st ! (p_block - 1))) in
         if imagePath = [] then False
         else fetchImagePathFromPreviewBlock st p_block = imagePath)
      else False)"

definition imagePathToCacheResourceName :: "qstring \<Rightarrow> qstring" where
  "imagePathToCacheResourceName p_imagePath = p_imagePath"

text \<open>The result is the state and the returned name; the empty name is \<^verbatim>\<open>QString()\<close>.\<close>

definition imageCacheResourceName :: "world \<Rightarrow> previewer \<Rightarrow> qstring \<Rightarrow> (previewer \<times> qstring) option" where
  "imageCacheResourceName w st p_imagePath = do {
     _ \<leftarrow> V_ASSERT (p_imagePath \<noteq> []);
     (case m_imageCache st p_imagePath of
        Some cached \<Rightarrow> Some (st, cached)
      | None \<Rightarrow>
         (if fileExists w p_imagePath then
            (case loadImage w p_imagePath of
               None \<Rightarrow> Some (st, [])
             | Some img \<Rightarrow>
                 let name = imagePathToCacheResourceName p_imagePath in
                 Some (st\<lparr>resources := (resources st)(name \<mapsto> img),
                          m_imageCache := (m_imageCache st)(p_imagePath \<mapsto> name)\<rparr>, name))
          else Some (st\<lparr>downloads := downloads st @ [p_imagePath]\<rparr>, [])))
   }"

definition removeBlock :: "previewer \<Rightarrow> nat \<Rightarrow> previewer" where
  "removeBlock st p_block =
     (let modified' = modified st;
          st1 = removeSelectedBlock st p_block in
      setModified st1 modified')"

text \<open>The result is the state and the handle of the returned block.\<close>

definition insertImagePreviewBlock :: "world \<Rightarrow> previewer \<Rightarrow> nat \<Rightarrow> qstring \<Rightarrow> (previewer \<times> nat) option" where
  "insertImagePreviewBlock w st p_block p_imagePath = do {
     (st1, imageName) \<leftarrow> imageCacheResourceName w st p_imagePath;
     if imageName = [] then Some (st1, p_block)
     else do {
       let modified' = modified st1;
       let st2 = beginEditBlock st1;
       let st3 = insertBlock st2 p_block;
       let imgFormat = \<lparr>fmtName = imageName, fmtImagePath = p_imagePath\<rparr>;
       let st4 = insertImage st3 (Suc p_block) imgFormat;
       let st5 = endEditBlock st4;
       let text' = blockText (blocks st5 ! Suc p_block);
       _ \<leftarrow> V_ASSERT (text' \<noteq> [] \<and> hd text' = ObjectReplacementCharacter);
       Some (setModified st5 modified', Suc p_block)
     }
   }"

definition updateFormatInPreviewBlock :: "previewer \<Rightarrow> nat \<Rightarrow> imageFormat \<Rightarrow> previewer option" where
  "updateFormatInPreviewBlock st p_block p_format = do {
     let b = blocks st ! p_block;
     let shift = indexOf (blockText b) ObjectReplacementCharacter;
     _ \<leftarrow> V_ASSERT (0 \<le> shift);
     _ \<leftarrow> V_ASSERT (snd (b ! nat shift) \<noteq> None);
     Some (setCharFormat st p_block (nat shift) p_format)
   }"

definition updateImagePreviewBlock :: "world \<Rightarrow> previewer \<Rightarrow> nat \<Rightarrow> qstring \<Rightarrow> previewer option" where
  "updateImagePreviewBlock w st p_block p_imagePath = do {
     let fetched = fetchFormatFromPreviewBlock st p_block;
     _ \<leftarrow> V_ASSERT (fetched \<noteq> None);
     let format = the fetched;
     let curPath = fmtImagePath format;
     if curPath = p_imagePath then Some st
     else do {
       (st1, imageName) \<leftarrow> imageCacheResourceName w st p_imagePath;
       if imageName = [] then Some (removeBlock st1 p_block)
       else updateFormatInPreviewBlock st1 p_block
              (format\<lparr>fmtName := imageName, fmtImagePath := p_imagePath\<rparr>)
     }
   }"

text \<open>
  The first loop of \<^verbatim>\<open>clearCorruptedImagePreviewBlock\<close>: the positions of the
  placeholder characters, and whether every other character is a space.
\<close>

definition scanReplacementChars :: "qstring \<Rightarrow> nat list \<times> bool" where
  "scanReplacementChars text' =
     foldl (\<lambda>(replacementChars, onlySpaces) i.
              if text' ! i = ObjectReplacementCharacter then (replacementChars @ [i], onlySpaces)
              else if \<not> isSpace (text' ! i) then (replacementChars, False)
              else (replacementChars, onlySpaces))
       ([], True) [0..<length text']"

definition clearCorruptedImagePreviewBlock :: "world \<Rightarrow> previewer \<Rightarrow> nat \<Rightarrow> previewer option" where
  "clearCorruptedImagePreviewBlock w st p_block =
     (if \<not> p_block < length (blocks st) then Some st
      else
        let text' = blockText (blocks st ! p_block);
            (replacementChars, onlySpaces) = scanReplacementChars text' in
        if \<not> onlySpaces \<and> replacementChars \<noteq> [] then do {
          let modified' = modified st;
          let st1 = beginEditBlock st;
          let st2 = foldl (\<lambda>s pos. deleteChar w s p_block pos) st1 (rev replacementChars);
          let st3 = endEditBlock st2;
          let st4 = setModified st3 modified';
          _ \<leftarrow> V_ASSERT (filter (\<lambda>c. c \<noteq> ObjectReplacementCharacter) text'
                          = blockText (blocks st4 ! p_block));
          Some st4
        } else Some st)"

text \<open>
  \<^verbatim>\<open>previewImageOfOneBlock\<close>: the result is the state and the handle of the block the
  scan goes on with.
\<close>

definition previewImageOfOneBlock :: "world \<Rightarrow> previewer \<Rightarrow> nat \<Rightarrow> (previewer \<times> nat) option" where
  "previewImageOfOneBlock w st p_block =
     (if \<not> p_block < length (blocks st) then Some (st, p_block)
      else
        let nblock = Suc p_block;
            imagePath = fetchImagePathToPreview w (blockText (blocks st ! p_block)) in
        if imagePath = [] then Some (st, nblock)
        else if isImagePreviewBlock st nblock then do {
          let nextBlock = Suc nblock;
          st1 \<leftarrow> updateImagePreviewBlock w st nblock imagePath;
          Some (st1, handleAfter st st1 nextBlock)
        } else do {
          (st1, imgBlock) \<leftarrow> insertImagePreviewBlock w st p_block imagePath;
          Some (st1, Suc imgBlock)
        })"

text \<open>One pass of the loop body of \<^verbatim>\<open>previewImages\<close> at the block \<open>block\<close>.\<close>

definition previewStep :: "world \<Rightarrow> previewer \<Rightarrow> nat \<Rightarrow> (previewer \<times> nat) option" where
  "previewStep w st block' =
     (if isImagePreviewBlock st block' then
        (if \<not> isValidImagePreviewBlock w st block' then
           let nblock = Suc block';
               st1 = removeBlock st block' in
           Some (st1, handleAfter st st1 nblock)
         else Some (st, Suc block'))
      else do {
        st1 \<leftarrow> clearCorruptedImagePreviewBlock w st block';
        previewImageOfOneBlock w st1 block'
      })"

subsection \<open>How the steps change the list of blocks\<close>

lemma blocks_documentChanged: "blocks (documentChanged st a b) = blocks st"
  by (simp add: documentChanged_def handleContentChange_def)

lemma blocks_removeBlock:
  "blocks (removeBlock st i) =
     (if length (blocks st) \<le> i \<or> blocks st ! i = [] then blocks st
      else if i = 0 then (blocks st)[0 := []]
      else take i (blocks st) @ drop (Suc i) (blocks st))"
  by (auto simp: removeBlock_def removeSelectedBlock_def setModified_def Let_def blocks_documentChanged)

lemma length_removeBlock:
  "length (blocks (removeBlock st i)) =
     (if 0 < i \<and> i < length (blocks st) \<and> blocks st ! i \<noteq> [] then length (blocks st) - 1
      else length (blocks st))"
  by (auto simp: blocks_removeBlock)

lemma length_blocks_deleteChar: "length (blocks (deleteChar w st i pos)) = length (blocks st)"
  by (simp add: deleteChar_def Let_def blocks_documentChanged)

lemma length_blocks_deleteChar_fold:
  "length (blocks (foldl (\<lambda>s pos. deleteChar w s i pos) st ps)) = length (blocks st)"
  by (induction ps arbitrary: st) (simp_all add: length_blocks_deleteChar)

lemma blocks_beginEditBlock: "blocks (beginEditBlock st) = blocks st"
  by (simp add: beginEditBlock_def)

lemma blocks_endEditBlock: "blocks (endEditBlock st) = blocks st"
  by (simp add: endEditBlock_def)

lemma blocks_setModified: "blocks (setModified st m) = blocks st"
  by (simp add: setModified_def)

lemma length_clearCorrupted:
  "clearCorruptedImagePreviewBlock w st i = Some st' \<Longrightarrow> length (blocks st') = length (blocks st)"
  by (auto simp: clearCorruptedImagePreviewBlock_def Let_def V_ASSERT_def length_blocks_deleteChar_fold
      blocks_beginEditBlock blocks_endEditBlock blocks_setModified
      split: if_splits prod.splits Option.bind_splits)

lemma blocks_imageCacheResourceName:
  "imageCacheResourceName w st p = Some (st', n) \<Longrightarrow> blocks st' = blocks st"
  by (auto simp: imageCacheResourceName_def V_ASSERT_def Let_def
      split: if_splits option.splits Option.bind_splits)

lemma blocks_insertImagePreviewBlock:
  "insertImagePreviewBlock w st i p = Some (st', j) \<Longrightarrow> i < length (blocks st) \<Longrightarrow>
     (blocks st' = blocks st \<and> j = i) \<or>
     (\<exists>n. blocks st' = take (Suc i) (blocks st) @
                         [(ObjectReplacementCharacter, Some \<lparr>fmtName = n, fmtImagePath = p\<rparr>)] #
                         drop (Suc i) (blocks st) \<and> j = Suc i)"
  by (auto simp: insertImagePreviewBlock_def V_ASSERT_def Let_def insertBlock_def insertImage_def
      blocks_documentChanged blocks_beginEditBlock blocks_endEditBlock blocks_setModified
      nth_append list_update_append min_def
      dest!: blocks_imageCacheResourceName
      split: if_splits option.splits Option.bind_splits prod.splits)


lemma blocks_setCharFormat:
  "blocks (setCharFormat st i pos f) =
     (blocks st)[i := (blocks st ! i)[pos := (fst (blocks st ! i ! pos), Some f)]]"
  by (simp add: setCharFormat_def Let_def blocks_documentChanged)

lemma length_updateImagePreviewBlock:
  "updateImagePreviewBlock w st i p = Some st' \<Longrightarrow>
     length (blocks st') = length (blocks st) \<or>
     (0 < i \<and> i < length (blocks st) \<and> length (blocks st') = length (blocks st) - 1)"
  by (auto simp: updateImagePreviewBlock_def updateFormatInPreviewBlock_def V_ASSERT_def Let_def
      length_removeBlock blocks_setCharFormat
      dest!: blocks_imageCacheResourceName
      split: if_splits option.splits Option.bind_splits prod.splits)

lemma previewImageOfOneBlock_measure:
  assumes "previewImageOfOneBlock w st i = Some (st', i')" and "i < length (blocks st)"
  shows "length (blocks st') - i' < length (blocks st) - i"
proof -
  let ?p = "fetchImagePathToPreview w (blockText (blocks st ! i))"
  show ?thesis
  proof (cases "?p = []")
    case True
    with assms show ?thesis by (auto simp: previewImageOfOneBlock_def Let_def)
  next
    case False
    show ?thesis
    proof (cases "isImagePreviewBlock st (Suc i)")
      case True
      with False assms obtain st1 where
        u: "updateImagePreviewBlock w st (Suc i) ?p = Some st1" and
        r: "st' = st1" "i' = handleAfter st st1 (Suc (Suc i))"
        by (auto simp: previewImageOfOneBlock_def Let_def split: Option.bind_splits)
      from length_updateImagePreviewBlock[OF u] assms(2) r show ?thesis
        by (auto simp: handleAfter_def)
    next
      case no_preview: False
      with False assms obtain j where
        u: "insertImagePreviewBlock w st i ?p = Some (st', j)" and r: "i' = Suc j"
        by (auto simp: previewImageOfOneBlock_def Let_def split: Option.bind_splits)
      from blocks_insertImagePreviewBlock[OF u assms(2)] assms(2) r show ?thesis
        by auto
    qed
  qed
qed

lemma previewStep_measure:
  assumes "previewStep w st i = Some (st', i')" and "i < length (blocks st)"
  shows "length (blocks st') - i' < length (blocks st) - i"
proof (cases "isImagePreviewBlock st i")
  case True
  with assms show ?thesis
    by (auto simp: previewStep_def Let_def handleAfter_def length_removeBlock split: if_splits)
next
  case False
  with assms obtain st1 where
    c: "clearCorruptedImagePreviewBlock w st i = Some st1" and
    p: "previewImageOfOneBlock w st1 i = Some (st', i')"
    by (auto simp: previewStep_def split: Option.bind_splits)
  from previewImageOfOneBlock_measure[OF p] length_clearCorrupted[OF c] assms(2)
  show ?thesis by simp
qed

text \<open>The loop of \<^verbatim>\<open>previewImages\<close>, entered at the block \<open>block\<close>.\<close>

function previewLoop :: "world \<Rightarrow> previewer \<Rightarrow> nat \<Rightarrow> previewer option" where
  "previewLoop w st block' =
     (if block' < length (blocks st) \<and> m_enablePreview st then
        (case previewStep w st block' of
           None \<Rightarrow> None
         | Some (st1, nblock) \<Rightarrow> previewLoop w st1 nblock)
      else Some st)"
  by pat_completeness auto
termination
  by (relation "measure (\<lambda>(w, st, b). length (blocks st) - b)")
     (auto dest: previewStep_measure)

text \<open>The loop of \<^verbatim>\<open>clearAllImagePreviewBlocks\<close>, entered at the block \<open>block\<close>.\<close>

function clearLoop :: "world \<Rightarrow> previewer \<Rightarrow> nat \<Rightarrow> previewer option" where
  "clearLoop w st block' =
     (if block' < length (blocks st) then
        (if isImagePreviewBlock st block' then
           clearLoop w (removeBlock st block')
             (handleAfter st (removeBlock st block') (Suc block'))
         else
           (case clearCorruptedImagePreviewBlock w st block' of
              None \<Rightarrow> None
            | Some st1 \<Rightarrow> clearLoop w st1 (Suc block')))
      else Some st)"
  by pat_completeness auto
termination
  by (relation "measure (\<lambda>(w, st, b). length (blocks st) - b)")
     (auto simp: handleAfter_def length_removeBlock dest: length_clearCorrupted)

text \<open>The two loops are unfolded by hand (\<open>subst\<close>), never by the simplifier.\<close>

declare previewLoop.simps [simp del] clearLoop.simps [simp del]

definition clearAllImagePreviewBlocks :: "world \<Rightarrow> previewer \<Rightarrow> previewer option" where
  "clearAllImagePreviewBlocks w st = do {
     _ \<leftarrow> V_ASSERT (\<not> m_isPreviewing st);
     let modified' = modified st;
     let st1 = beginEditBlock st;
     st2 \<leftarrow> clearLoop w st1 0;
     let st3 = endEditBlock st2;
     let st4 = setModified st3 modified';
     Some (st4\<lparr>statusChanged := Suc (statusChanged st4)\<rparr>)
   }"

definition refresh :: "world \<Rightarrow> previewer \<Rightarrow> previewer option" where
  "refresh w st =
     (if m_isPreviewing st then Some (st\<lparr>m_requestRefreshBlocks := True\<rparr>)
      else do {
        let st1 = st\<lparr>timerActive := False\<rparr>;
        let st2 = st1\<lparr>m_imageCache := Map.empty\<rparr>;
        st3 \<leftarrow> clearAllImagePreviewBlocks w st2;
        Some (st3\<lparr>timerActive := True\<rparr>)
      })"

text \<open>The part of \<^verbatim>\<open>previewImages\<close> behind its loop.\<close>

definition finishPreview :: "world \<Rightarrow> previewer \<Rightarrow> previewer option" where
  "finishPreview w st = do {
     let st1 = st\<lparr>m_isPreviewing := False\<rparr>;
     st2 \<leftarrow> (if m_requestCearBlocks st1
             then clearAllImagePreviewBlocks w (st1\<lparr>m_requestCearBlocks := False\<rparr>)
             else Some st1);
     st3 \<leftarrow> (if m_requestRefreshBlocks st2
             then refresh w (st2\<lparr>m_requestRefreshBlocks := False\<rparr>)
             else Some st2);
     Some (st3\<lparr>statusChanged := Suc (statusChanged st3)\<rparr>)
   }"

text \<open>
  A scan that is under way, with its loop at the block \<open>block\<close>: the rest of the loop and
  what follows it. Slots that run while the scan is active (\<^verbatim>\<open>disableImagePreview\<close>,
  \<^verbatim>\<open>refresh\<close>, \<^verbatim>\<open>timerTimeout\<close>, \<^verbatim>\<open>imageDownloaded\<close>) change the state between two
  passes of the loop; the scan then goes on from that state.
\<close>

definition previewImagesFrom :: "world \<Rightarrow> previewer \<Rightarrow> nat \<Rightarrow> previewer option" where
  "previewImagesFrom w st block' = do {
     st1 \<leftarrow> previewLoop w st block';
     finishPreview w st1
   }"

definition previewImages :: "world \<Rightarrow> previewer \<Rightarrow> previewer option" where
  "previewImages w st =
     (if m_isPreviewing st then Some st
      else previewImagesFrom w (st\<lparr>m_isPreviewing := True\<rparr>) 0)"

definition isPreviewEnabled :: "previewer \<Rightarrow> bool" where
  "isPreviewEnabled st = m_enablePreview st"

definition enableImagePreview :: "world \<Rightarrow> previewer \<Rightarrow> previewer" where
  "enableImagePreview w st =
     (let st1 = st\<lparr>m_enablePreview := True\<rparr> in
      if getEnablePreviewImages w then st1\<lparr>timerActive := True\<rparr> else st1)"

definition disableImagePreview :: "world \<Rightarrow> previewer \<Rightarrow> previewer option" where
  "disableImagePreview w st =
     (let st1 = st\<lparr>m_enablePreview := False\<rparr> in
      if m_isPreviewing st1 then Some (st1\<lparr>m_requestCearBlocks := True\<rparr>)
      else clearAllImagePreviewBlocks w st1)"

text \<open>The timer is single-shot: when its slot runs it is no longer active.\<close>

definition timerTimeout :: "world \<Rightarrow> previewer \<Rightarrow> previewer option" where
  "timerTimeout w st =
     (let st0 = st\<lparr>timerActive := False\<rparr> in
      if \<not> getEnablePreviewImages w then
        (if m_enablePreview st0 then disableImagePreview w st0 else Some st0)
      else if \<not> m_enablePreview st0 then Some st0
      else previewImages w st0)"

definition imageDownloaded :: "world \<Rightarrow> previewer \<Rightarrow> qbytearray \<Rightarrow> qstring \<Rightarrow> previewer" where
  "imageDownloaded w st p_data p_url =
     (case fromData w p_data of
        None \<Rightarrow> st
      | Some img \<Rightarrow>
          (case m_imageCache st p_url of
             Some cached \<Rightarrow> st
           | None \<Rightarrow>
               let st1 = st\<lparr>timerActive := False\<rparr>;
                   name = imagePathToCacheResourceName p_url;
                   st2 = st1\<lparr>resources := (resources st1)(name \<mapsto> img)\<rparr>;
                   st3 = st2\<lparr>m_imageCache := (m_imageCache st2)(p_url \<mapsto> name)\<rparr>
               in st3\<lparr>timerActive := True\<rparr>))"

section \<open>Occurrences of the image markup in a line\<close>

text \<open>
  The specification speaks of the pattern \<^verbatim>\<open>![...](ref)\<close> occurring in a line. These
  definitions follow its words, not the source: the text of the markup with a bracketed
  text \<open>alt\<close> (free of \<^verbatim>\<open>]\<close>) and a non-empty reference \<open>ref\<close> (free of \<^verbatim>\<open>)\<close>), and
  an occurrence \<open>(i, a, r)\<close> of it in a line: it starts at position \<open>i\<close>, its bracketed
  text has length \<open>a\<close> and its reference length \<open>r\<close>.
\<close>

definition imageMarkup :: "qstring \<Rightarrow> qstring \<Rightarrow> qstring" where
  "imageMarkup alt ref = [0x21, 0x5B] @ alt @ [0x5D, 0x28] @ ref @ [0x29]"

definition occurrence :: "qstring \<Rightarrow> nat \<times> nat \<times> nat \<Rightarrow> bool" where
  "occurrence s = (\<lambda>(i, a, r).
     let alt = take a (drop (i + 2) s);
         ref = take r (drop (i + a + 4) s) in
     i + a + r + 5 \<le> length s \<and>
     take (a + r + 5) (drop i s) = imageMarkup alt ref \<and>
     0x5D \<notin> set alt \<and> ref \<noteq> [] \<and> 0x29 \<notin> set ref)"

definition occurrences :: "qstring \<Rightarrow> (nat \<times> nat \<times> nat) list" where
  "occurrences s =
     filter (occurrence s)
       (List.product [0..<Suc (length s)]
          (List.product [0..<Suc (length s)] [0..<Suc (length s)]))"

text \<open>The one occurrence that can start at a position with a match.\<close>

definition occAt :: "qstring \<Rightarrow> nat \<Rightarrow> nat \<times> nat \<times> nat" where
  "occAt s i = (i, length (takeWhile (\<lambda>c. c \<noteq> 0x5D) (drop (i + 2) s)),
                 length (capturedText1 s (int i)))"

section \<open>Notions the claims speak of\<close>

text \<open>The flags that steer a scan.\<close>

definition sameControl :: "previewer \<Rightarrow> previewer \<Rightarrow> bool" where
  "sameControl st st' \<longleftrightarrow>
     m_enablePreview st' = m_enablePreview st \<and> m_isPreviewing st' = m_isPreviewing st \<and>
     m_requestCearBlocks st' = m_requestCearBlocks st \<and>
     m_requestRefreshBlocks st' = m_requestRefreshBlocks st"

text \<open>Everything but the document's text, its modified flag, its undo
  history and the timer.\<close>

definition sameEngine :: "previewer \<Rightarrow> previewer \<Rightarrow> bool" where
  "sameEngine st st' \<longleftrightarrow>
     sameControl st st' \<and> m_imageCache st' = m_imageCache st \<and> resources st' = resources st \<and>
     downloads st' = downloads st \<and> statusChanged st' = statusChanged st"

text \<open>
  The two request latches are set only while a scan is active. The constructor
  establishes this (all three flags are false) and every slot keeps it.
\<close>

definition latchedOnlyWhileScanning :: "previewer \<Rightarrow> bool" where
  "latchedOnlyWhileScanning st \<longleftrightarrow>
     m_isPreviewing st \<or> (\<not> m_requestCearBlocks st \<and> \<not> m_requestRefreshBlocks st)"

text \<open>A corrupted block: a placeholder character together with a character that is neither
  a placeholder nor a space.\<close>

definition corrupted :: "block \<Rightarrow> bool" where
  "corrupted b \<longleftrightarrow>
     ObjectReplacementCharacter \<in> set (blockText b) \<and>
     (\<exists>c\<in>set (blockText b). c \<noteq> ObjectReplacementCharacter \<and> \<not> isSpace c)"

text \<open>
  What \<^verbatim>\<open>deleteChar\<close> leaves of a block when the cursor is at \<open>pos\<close>, and what the
  deletions of \<^verbatim>\<open>clearCorruptedImagePreviewBlock\<close> leave of it: the cursor is put at
  the placeholder characters of the block, the last one first.
\<close>

definition deleteCluster :: "world \<Rightarrow> block \<Rightarrow> nat \<Rightarrow> block" where
  "deleteCluster w b pos = take pos b @ drop (nextCursorPosition w (blockText b) pos) b"

definition deleteClusters :: "world \<Rightarrow> block \<Rightarrow> block" where
  "deleteClusters w b =
     foldl (deleteCluster w) b
       (rev (filter (\<lambda>k. fst (b ! k) = ObjectReplacementCharacter) [0..<length b]))"

text \<open>
  Every placeholder character of a text is a grapheme cluster of its own at the moment
  the cleanup deletes it, that is in the text without the placeholders behind it: the
  next cursor position is the next character. This fails where a combining mark (or
  another character that extends a cluster) follows a placeholder.
\<close>

definition placeholdersAlone :: "world \<Rightarrow> qstring \<Rightarrow> bool" where
  "placeholdersAlone w t \<longleftrightarrow>
     (\<forall>p\<in>set [0..<length t]. t ! p = ObjectReplacementCharacter \<longrightarrow>
        nextCursorPosition w
          (take (Suc p) t @ filter (\<lambda>c. c \<noteq> ObjectReplacementCharacter) (drop (Suc p) t)) p = Suc p)"

text \<open>The cleanup of every corrupted block of the document deletes single characters.\<close>

definition cleanable :: "world \<Rightarrow> previewer \<Rightarrow> bool" where
  "cleanable w st \<longleftrightarrow>
     (\<forall>b\<in>set (blocks st). corrupted b \<longrightarrow> placeholdersAlone w (blockText b))"

text \<open>
  What can happen for one key between scans: the key is resolved once more
  (\<^verbatim>\<open>imageCacheResourceName\<close>), or a download of it completes (\<^verbatim>\<open>imageDownloaded\<close>).
  \<open>firstDecoded\<close> is the image of the first completion whose bytes decode.
\<close>

datatype keyEvent = Resolve | Downloaded qbytearray

fun keyEvents :: "world \<Rightarrow> qstring \<Rightarrow> previewer \<Rightarrow> keyEvent list \<Rightarrow> previewer option" where
  "keyEvents w url st [] = Some st"
| "keyEvents w url st (Resolve # es) =
     (case imageCacheResourceName w st url of
        None \<Rightarrow> None
      | Some (st1, name) \<Rightarrow> keyEvents w url st1 es)"
| "keyEvents w url st (Downloaded p_data # es) = keyEvents w url (imageDownloaded w st p_data url) es"

fun firstDecoded :: "world \<Rightarrow> keyEvent list \<Rightarrow> qimage option" where
  "firstDecoded w [] = None"
| "firstDecoded w (Resolve # es) = firstDecoded w es"
| "firstDecoded w (Downloaded p_data # es) =
     (case fromData w p_data of Some img \<Rightarrow> Some img | None \<Rightarrow> firstDecoded w es)"

text \<open>
  Whether \<^verbatim>\<open>imageCacheResourceName\<close> finds an image for a key: the key is cached under a
  non-empty name, or it is not cached and names an existing file that decodes.
\<close>

definition resolves :: "world \<Rightarrow> (qstring \<rightharpoonup> qstring) \<Rightarrow> qstring \<Rightarrow> bool" where
  "resolves w cache p \<longleftrightarrow>
     (case cache p of Some name \<Rightarrow> name \<noteq> [] | None \<Rightarrow> fileExists w p \<and> loadImage w p \<noteq> None)"

text \<open>
  The block-level readings of \<^verbatim>\<open>isImagePreviewBlock\<close>, \<^verbatim>\<open>fetchImagePathToPreview\<close> and
  \<^verbatim>\<open>fetchImagePathFromPreviewBlock\<close>.
\<close>

definition isPreview :: "block \<Rightarrow> bool" where
  "isPreview b \<longleftrightarrow> trimmed (blockText b) = [ObjectReplacementCharacter]"

definition pathOf :: "world \<Rightarrow> block \<Rightarrow> qstring" where
  "pathOf w b = fetchImagePathToPreview w (blockText b)"

definition storedPath :: "block \<Rightarrow> qstring" where
  "storedPath b =
     (let shift = indexOf (blockText b) ObjectReplacementCharacter in
      if 0 \<le> shift then (case snd (b ! nat shift) of None \<Rightarrow> [] | Some f \<Rightarrow> fmtImagePath f)
      else [])"

text \<open>
  A document in step with its image references: it is a sequence of blocks that are no
  image preview blocks and are not corrupted, each followed by at most one image
  preview block. A preview block holds the non-empty path of the block before it; a
  block without a preview block behind it has no path, or a path that does not resolve
  (\<open>R\<close>).
\<close>

fun synchronized :: "world \<Rightarrow> (qstring \<Rightarrow> bool) \<Rightarrow> block list \<Rightarrow> bool" where
  "synchronized w R [] = True"
| "synchronized w R [b] =
     (\<not> isPreview b \<and> \<not> corrupted b \<and> (pathOf w b = [] \<or> \<not> R (pathOf w b)))"
| "synchronized w R (b # a # rest) =
     (\<not> isPreview b \<and> \<not> corrupted b \<and>
      (if isPreview a then pathOf w b \<noteq> [] \<and> storedPath a = pathOf w b \<and> synchronized w R rest
       else (pathOf w b = [] \<or> \<not> R (pathOf w b)) \<and> synchronized w R (a # rest)))"

section \<open>Example documents\<close>

text \<open>
  A block of plain text, and a previewer that is enabled and idle over a document. In
  the host of the examples the combining diacritical marks U+0300 to U+036F extend the
  character before them, and every other character starts a grapheme cluster.
\<close>

definition plain :: "string \<Rightarrow> block" where
  "plain s = map (\<lambda>c. (of_char c, None)) s"

definition exampleState :: "block list \<Rightarrow> previewer" where
  "exampleState bs = \<lparr>blocks = bs, resources = Map.empty, modified = False, editBlock = 0,
      editBlockDirty = False, undoSteps = 0, m_enablePreview = True, m_isPreviewing = False,
      m_requestCearBlocks = False, m_requestRefreshBlocks = False, m_imageCache = Map.empty,
      timerActive = False, downloads = [], statusChanged = 0\<rparr>"

definition exampleWorld :: world where
  "exampleWorld = \<lparr>getEnablePreviewImages = True,
         relativeExists = (\<lambda>u. u = fromLatin1 ''a.png'' \<or> u = fromLatin1 ''bad.png''),
         relativeIsNativePath = (\<lambda>u. True),
         relativeAbsoluteFilePath = (\<lambda>u. fromLatin1 ''/n/'' @ u),
         urlToString = (\<lambda>u. u),
         fileExists = (\<lambda>p. p = fromLatin1 ''/n/a.png'' \<or> p = fromLatin1 ''/n/bad.png''),
         loadImage = (\<lambda>p. if p = fromLatin1 ''/n/a.png'' then Some (Picture 1) else None),
         fromData = (\<lambda>d. if d = [] then None else Some (Picture (length d))),
         graphemeBoundary = (\<lambda>t i. \<not> (0x0300 \<le> t ! i \<and> t ! i \<le> 0x036F))\<rparr>"

text \<open>An image preview block as the previewer writes it for a path.\<close>

definition previewOf :: "string \<Rightarrow> block" where
  "previewOf p = [(ObjectReplacementCharacter, Some \<lparr>fmtName = fromLatin1 p, fmtImagePath = fromLatin1 p\<rparr>)]"

section \<open>Facts about the text predicates and the cleanup\<close>

lemma not_isSpace_ORC: "\<not> isSpace ObjectReplacementCharacter"
  by (simp add: isSpace_def ObjectReplacementCharacter_def)

lemma trimmed_single_iff:
  assumes "\<not> isSpace c"
  shows "trimmed s = [c] \<longleftrightarrow>
         (\<exists>l r. s = l @ [c] @ r \<and> (\<forall>x\<in>set l. isSpace x) \<and> (\<forall>x\<in>set r. isSpace x))"
proof
  assume t: "trimmed s = [c]"
  let ?rest = "dropWhile isSpace s"
  from t have "dropWhile isSpace (rev ?rest) = [c]"
    by (simp add: trimmed_def rev_swap)
  then have "rev ?rest = takeWhile isSpace (rev ?rest) @ [c]"
    by (metis takeWhile_dropWhile_id)
  then have "?rest = c # rev (takeWhile isSpace (rev ?rest))"
    by (metis rev_append rev_rev_ident append_Nil rev_singleton_conv append_Cons)
  then have "s = takeWhile isSpace s @ [c] @ rev (takeWhile isSpace (rev ?rest))"
    by (metis takeWhile_dropWhile_id append_Cons append_Nil)
  moreover have "\<forall>x\<in>set (takeWhile isSpace s). isSpace x"
    by (auto dest: set_takeWhileD)
  moreover have "\<forall>x\<in>set (rev (takeWhile isSpace (rev ?rest))). isSpace x"
    by (auto dest: set_takeWhileD)
  ultimately show "\<exists>l r. s = l @ [c] @ r \<and> (\<forall>x\<in>set l. isSpace x) \<and> (\<forall>x\<in>set r. isSpace x)"
    by blast
next
  assume "\<exists>l r. s = l @ [c] @ r \<and> (\<forall>x\<in>set l. isSpace x) \<and> (\<forall>x\<in>set r. isSpace x)"
  then obtain l r where s: "s = l @ [c] @ r" and l: "\<forall>x\<in>set l. isSpace x"
    and r: "\<forall>x\<in>set r. isSpace x" by blast
  from l assms have "dropWhile isSpace s = c # r"
    by (simp add: s dropWhile_append)
  moreover from r assms have "dropWhile isSpace (rev r @ [c]) = [c]"
    by (simp add: dropWhile_append)
  ultimately show "trimmed s = [c]"
    by (simp add: trimmed_def)
qed

lemma scanReplacementChars_upto:
  "m \<le> length t \<Longrightarrow>
   foldl (\<lambda>(replacementChars, onlySpaces) i.
              if t ! i = ObjectReplacementCharacter then (replacementChars @ [i], onlySpaces)
              else if \<not> isSpace (t ! i) then (replacementChars, False)
              else (replacementChars, onlySpaces))
       ([], True) [0..<m]
   = (filter (\<lambda>i. t ! i = ObjectReplacementCharacter) [0..<m],
      \<forall>i<m. t ! i = ObjectReplacementCharacter \<or> isSpace (t ! i))"
proof (induction m)
  case 0
  then show ?case by simp
next
  case (Suc m)
  then show ?case by (auto simp: less_Suc_eq)
qed

lemma scanReplacementChars_eq:
  "scanReplacementChars t =
     (filter (\<lambda>i. t ! i = ObjectReplacementCharacter) [0..<length t],
      \<forall>c\<in>set t. c = ObjectReplacementCharacter \<or> isSpace c)"
  unfolding scanReplacementChars_def
  by (simp add: scanReplacementChars_upto all_set_conv_all_nth)

lemma filter_positions_Nil_iff:
  "filter (\<lambda>i. t ! i = c) [0..<length t] = [] \<longleftrightarrow> c \<notin> set t"
  by (auto simp: filter_empty_conv in_set_conv_nth)


lemma nextCursorPosition_bounds:
  "pos < length t \<Longrightarrow> pos < nextCursorPosition w t pos \<and> nextCursorPosition w t pos \<le> length t"
proof -
  assume p: "pos < length t"
  have "length (takeWhile (\<lambda>j. \<not> graphemeBoundary w t j) [Suc pos..<length t]) \<le> length [Suc pos..<length t]"
    by (rule length_takeWhile_le)
  with p show ?thesis by (simp add: nextCursorPosition_def)
qed

lemma length_deleteCluster: "pos < length b \<Longrightarrow> pos \<le> length (deleteCluster w b pos)"
  by (simp add: deleteCluster_def)

lemma deleteClusters_upto:
  assumes "placeholdersAlone w (blockText b)"
  shows "k \<le> length b \<Longrightarrow>
     foldl (deleteCluster w) b
       (rev (filter (\<lambda>j. fst (b ! j) = ObjectReplacementCharacter) [length b - k..<length b])) =
     take (length b - k) b @ filter (\<lambda>c. fst c \<noteq> ObjectReplacementCharacter) (drop (length b - k) b)"
proof (induction k)
  case 0
  then show ?case by simp
next
  case (Suc k)
  let ?n = "length b - Suc k"
  from Suc.prems have n: "?n < length b" "Suc ?n = length b - k" by simp_all
  have up: "[?n..<length b] = ?n # [length b - k..<length b]"
    using n by (simp add: upt_conv_Cons)
  have dr: "drop ?n b = b ! ?n # drop (length b - k) b"
    using n by (metis Cons_nth_drop_Suc)
  have tk: "take (length b - k) b = take ?n b @ [b ! ?n]"
    using n by (metis take_Suc_conv_app_nth)
  from Suc have IH: "foldl (deleteCluster w) b
       (rev (filter (\<lambda>j. fst (b ! j) = ObjectReplacementCharacter) [length b - k..<length b])) =
     take (length b - k) b @ filter (\<lambda>c. fst c \<noteq> ObjectReplacementCharacter) (drop (length b - k) b)"
    by simp
  show ?case
  proof (cases "fst (b ! ?n) = ObjectReplacementCharacter")
    case False
    then show ?thesis by (simp add: up dr IH tk)
  next
    case True
    let ?c = "take (length b - k) b @ filter (\<lambda>c. fst c \<noteq> ObjectReplacementCharacter) (drop (length b - k) b)"
    have txt': "blockText ?c = take (Suc ?n) (blockText b) @
        filter (\<lambda>c. c \<noteq> ObjectReplacementCharacter) (drop (Suc ?n) (blockText b))"
      using n by (simp add: blockText_def take_map drop_map filter_map comp_def)
    from assms have "\<forall>p\<in>set [0..<length (blockText b)].
        blockText b ! p = ObjectReplacementCharacter \<longrightarrow>
        nextCursorPosition w (take (Suc p) (blockText b) @
          filter (\<lambda>c. c \<noteq> ObjectReplacementCharacter) (drop (Suc p) (blockText b))) p = Suc p"
      by (simp add: placeholdersAlone_def)
    moreover have "?n \<in> set [0..<length (blockText b)]" using n by (simp add: blockText_def)
    moreover have "blockText b ! ?n = ObjectReplacementCharacter"
      using n True by (simp add: blockText_def)
    ultimately have "nextCursorPosition w (blockText ?c) ?n = Suc ?n"
      unfolding txt' by blast
    then have "deleteCluster w ?c ?n = take ?n ?c @ drop (Suc ?n) ?c"
      by (simp add: deleteCluster_def)
    also have "\<dots> = take ?n b @ filter (\<lambda>c. fst c \<noteq> ObjectReplacementCharacter) (drop (length b - k) b)"
      using n by (simp add: tk)
    finally show ?thesis using True by (simp add: up dr IH)
  qed
qed

lemma deleteClusters_alone:
  "placeholdersAlone w (blockText b) \<Longrightarrow>
   deleteClusters w b = filter (\<lambda>c. fst c \<noteq> ObjectReplacementCharacter) b"
  using deleteClusters_upto[of w b "length b"] by (simp add: deleteClusters_def)

lemma deleteCluster_prefix:
  "m \<le> pos \<Longrightarrow> pos < length b \<Longrightarrow> take m (deleteCluster w b pos) = take m b"
  by (simp add: deleteCluster_def)

lemma deleteCluster_length:
  "pos < length b \<Longrightarrow> length (deleteCluster w b pos) < length b \<and> pos \<le> length (deleteCluster w b pos) \<and>
     (Suc (length (deleteCluster w b pos)) = length b \<longrightarrow>
        nextCursorPosition w (blockText b) pos = Suc pos)"
  using nextCursorPosition_bounds[of pos "blockText b" w]
  by (auto simp: deleteCluster_def blockText_def)

lemma deleteClusters_upto_conv:
  "k \<le> length b \<Longrightarrow>
   (let F = foldl (deleteCluster w) b
          (rev (filter (\<lambda>j. fst (b ! j) = ObjectReplacementCharacter) [length b - k..<length b]));
        c = length (filter (\<lambda>j. fst (b ! j) = ObjectReplacementCharacter) [length b - k..<length b])
    in length b - k \<le> length F \<and> length F + c \<le> length b \<and>
       take (length b - k) F = take (length b - k) b \<and>
       (length F + c = length b \<longrightarrow>
          F = take (length b - k) b @ filter (\<lambda>c. fst c \<noteq> ObjectReplacementCharacter) (drop (length b - k) b) \<and>
          (\<forall>p\<in>set [length b - k..<length b]. blockText b ! p = ObjectReplacementCharacter \<longrightarrow>
             nextCursorPosition w
               (take (Suc p) (blockText b) @
                filter (\<lambda>c. c \<noteq> ObjectReplacementCharacter) (drop (Suc p) (blockText b))) p = Suc p)))"
proof (induction k)
  case 0
  then show ?case by simp
next
  case (Suc k)
  let ?n = "length b - Suc k"
  let ?ps = "filter (\<lambda>j. fst (b ! j) = ObjectReplacementCharacter) [length b - k..<length b]"
  let ?F = "foldl (deleteCluster w) b (rev ?ps)"
  let ?G = "take (length b - k) b @ filter (\<lambda>c. fst c \<noteq> ObjectReplacementCharacter) (drop (length b - k) b)"
  from Suc.prems have n: "?n < length b" "Suc ?n = length b - k" by simp_all
  have up: "[?n..<length b] = ?n # [length b - k..<length b]"
    using n by (simp add: upt_conv_Cons)
  have dr: "drop ?n b = b ! ?n # drop (length b - k) b"
    using n by (metis Cons_nth_drop_Suc)
  have tk: "take (length b - k) b = take ?n b @ [b ! ?n]"
    using n by (metis take_Suc_conv_app_nth)
  from Suc have IH: "length b - k \<le> length ?F" "length ?F + length ?ps \<le> length b"
    "take (length b - k) ?F = take (length b - k) b"
    "length ?F + length ?ps = length b \<Longrightarrow> ?F = ?G"
    "length ?F + length ?ps = length b \<Longrightarrow>
       \<forall>p\<in>set [length b - k..<length b]. blockText b ! p = ObjectReplacementCharacter \<longrightarrow>
             nextCursorPosition w
               (take (Suc p) (blockText b) @
                filter (\<lambda>c. c \<noteq> ObjectReplacementCharacter) (drop (Suc p) (blockText b))) p = Suc p"
    by (simp_all add: Let_def)
  have pre: "take ?n ?F = take ?n b"
  proof -
    have "take ?n (take (length b - k) ?F) = take ?n (take (length b - k) b)"
      by (simp only: IH(3))
    then show ?thesis using n by (simp add: min_def)
  qed
  show ?case
  proof (cases "fst (b ! ?n) = ObjectReplacementCharacter")
    case False
    then have nb: "blockText b ! ?n \<noteq> ObjectReplacementCharacter"
      using n by (simp add: blockText_def)
    from False have f: "filter (\<lambda>j. fst (b ! j) = ObjectReplacementCharacter) [?n..<length b] = ?ps"
      by (simp add: up)
    have g: "take ?n b @ filter (\<lambda>c. fst c \<noteq> ObjectReplacementCharacter) (drop ?n b) = ?G"
      using False by (simp add: dr tk)
    show ?thesis unfolding Let_def f
    proof (intro conjI impI)
      show "?n \<le> length ?F" using IH(1) n by simp
      show "length ?F + length ?ps \<le> length b" by (rule IH(2))
      show "take ?n ?F = take ?n b" by (rule pre)
    next
      assume e: "length ?F + length ?ps = length b"
      show "?F = take ?n b @ filter (\<lambda>c. fst c \<noteq> ObjectReplacementCharacter) (drop ?n b)"
        using IH(4)[OF e] by (simp only: g)
      show "\<forall>p\<in>set [?n..<length b]. blockText b ! p = ObjectReplacementCharacter \<longrightarrow>
             nextCursorPosition w
               (take (Suc p) (blockText b) @
                filter (\<lambda>c. c \<noteq> ObjectReplacementCharacter) (drop (Suc p) (blockText b))) p = Suc p"
        using IH(5)[OF e] nb by (simp add: up)
    qed
  next
    case True
    then have tb: "blockText b ! ?n = ObjectReplacementCharacter"
      using n by (simp add: blockText_def)
    from True have f: "filter (\<lambda>j. fst (b ! j) = ObjectReplacementCharacter) [?n..<length b] = ?n # ?ps"
      by (simp add: up)
    let ?F' = "deleteCluster w ?F ?n"
    have F': "foldl (deleteCluster w) b (rev (?n # ?ps)) = ?F'" by simp
    from IH(1) n have nF: "?n < length ?F" by simp
    note dl = deleteCluster_length[OF nF, of w]
    have g: "take ?n b @ filter (\<lambda>c. fst c \<noteq> ObjectReplacementCharacter) (drop ?n b) =
             take ?n b @ filter (\<lambda>c. fst c \<noteq> ObjectReplacementCharacter) (drop (length b - k) b)"
      using True by (simp add: dr)
    have a1: "?n \<le> length ?F'" using dl by simp
    have a2: "length ?F' + length (?n # ?ps) \<le> length b" using dl IH(2) by simp
    have a3: "take ?n ?F' = take ?n b" using deleteCluster_prefix[of ?n ?n ?F w] nF pre by simp
    have a4: "?F' = take ?n b @ filter (\<lambda>c. fst c \<noteq> ObjectReplacementCharacter) (drop (length b - k) b) \<and>
          (\<forall>p\<in>set [?n..<length b]. blockText b ! p = ObjectReplacementCharacter \<longrightarrow>
             nextCursorPosition w
               (take (Suc p) (blockText b) @
                filter (\<lambda>c. c \<noteq> ObjectReplacementCharacter) (drop (Suc p) (blockText b))) p = Suc p)"
      if eq: "length ?F' + length (?n # ?ps) = length b"
    proof -
      from eq dl IH(2) have e1: "length ?F + length ?ps = length b" and e2: "Suc (length ?F') = length ?F"
        by simp_all
      from dl e2 have ncp: "nextCursorPosition w (blockText ?F) ?n = Suc ?n" by simp
      note FG = IH(4)[OF e1]
      have txt': "blockText ?G = take (Suc ?n) (blockText b) @
          filter (\<lambda>c. c \<noteq> ObjectReplacementCharacter) (drop (Suc ?n) (blockText b))"
        using n by (simp add: blockText_def take_map drop_map filter_map comp_def)
      from ncp have here: "nextCursorPosition w
               (take (Suc ?n) (blockText b) @
                filter (\<lambda>c. c \<noteq> ObjectReplacementCharacter) (drop (Suc ?n) (blockText b))) ?n = Suc ?n"
        unfolding FG txt' .
      from ncp have "?F' = take ?n ?F @ drop (Suc ?n) ?F" by (simp add: deleteCluster_def)
      also have "\<dots> = take ?n ?G @ drop (Suc ?n) ?G" by (simp only: FG)
      also have "\<dots> = take ?n b @ filter (\<lambda>c. fst c \<noteq> ObjectReplacementCharacter) (drop (length b - k) b)"
        using n by (simp add: tk)
      finally have r: "?F' = take ?n b @ filter (\<lambda>c. fst c \<noteq> ObjectReplacementCharacter) (drop (length b - k) b)" .
      from IH(5)[OF e1] here r show ?thesis by (simp add: up)
    qed
    show ?thesis unfolding Let_def f F'
    proof (intro conjI impI)
      show "?n \<le> length ?F'" by (rule a1)
      show "length ?F' + length (?n # ?ps) \<le> length b" by (rule a2)
      show "take ?n ?F' = take ?n b" by (rule a3)
    next
      assume e: "length ?F' + length (?n # ?ps) = length b"
      show "?F' = take ?n b @ filter (\<lambda>c. fst c \<noteq> ObjectReplacementCharacter) (drop ?n b)"
        using a4[OF e] by (simp only: g)
      show "\<forall>p\<in>set [?n..<length b]. blockText b ! p = ObjectReplacementCharacter \<longrightarrow>
             nextCursorPosition w
               (take (Suc p) (blockText b) @
                filter (\<lambda>c. c \<noteq> ObjectReplacementCharacter) (drop (Suc p) (blockText b))) p = Suc p"
        using a4[OF e] by blast
    qed
  qed
qed

lemma deleteClusters_alone_iff:
  "blockText (deleteClusters w b) = filter (\<lambda>c. c \<noteq> ObjectReplacementCharacter) (blockText b) \<longleftrightarrow>
   placeholdersAlone w (blockText b)"
proof
  assume "placeholdersAlone w (blockText b)"
  then show "blockText (deleteClusters w b) = filter (\<lambda>c. c \<noteq> ObjectReplacementCharacter) (blockText b)"
    by (simp add: deleteClusters_alone blockText_def filter_map comp_def)
next
  assume a: "blockText (deleteClusters w b) = filter (\<lambda>c. c \<noteq> ObjectReplacementCharacter) (blockText b)"
  let ?ps = "filter (\<lambda>j. fst (b ! j) = ObjectReplacementCharacter) [0..<length b]"
  have d: "distinct ?ps" by simp
  have s: "set ?ps = {i. i < length b \<and> fst (b ! i) = ObjectReplacementCharacter}" by auto
  have "card {i. i < length b \<and> fst (b ! i) = ObjectReplacementCharacter} = length ?ps"
    using distinct_card[OF d] by (simp only: s)
  then have "length (filter (\<lambda>c. fst c = ObjectReplacementCharacter) b) = length ?ps"
    by (simp only: length_filter_conv_card)
  moreover have "length (filter (\<lambda>c. fst c = ObjectReplacementCharacter) b) +
        length (filter (\<lambda>c. fst c \<noteq> ObjectReplacementCharacter) b) = length b"
    using sum_length_filter_compl[of "\<lambda>c. fst c = ObjectReplacementCharacter" b] by simp
  moreover have "length (deleteClusters w b) = length (filter (\<lambda>c. fst c \<noteq> ObjectReplacementCharacter) b)"
  proof -
    from a have "length (blockText (deleteClusters w b)) =
        length (filter (\<lambda>c. c \<noteq> ObjectReplacementCharacter) (blockText b))" by simp
    then show ?thesis by (simp add: blockText_def filter_map comp_def)
  qed
  ultimately have "length (deleteClusters w b) + length ?ps = length b" by simp
  with deleteClusters_upto_conv[of "length b" b w] show "placeholdersAlone w (blockText b)"
    by (simp add: Let_def deleteClusters_def placeholdersAlone_def blockText_def)
qed

lemma isImagePreviewBlock_split:
  "isImagePreviewBlock st i \<longleftrightarrow>
     i < length (blocks st) \<and>
     (\<exists>l r. blockText (blocks st ! i) = l @ [ObjectReplacementCharacter] @ r \<and>
            (\<forall>c\<in>set l. isSpace c) \<and> (\<forall>c\<in>set r. isSpace c))"
  by (simp add: isImagePreviewBlock_def trimmed_single_iff[OF not_isSpace_ORC])

lemma previewBlock_onlySpaces:
  assumes "isImagePreviewBlock st i"
  shows "\<forall>c\<in>set (blockText (blocks st ! i)). c = ObjectReplacementCharacter \<or> isSpace c"
proof -
  from assms obtain l r where "blockText (blocks st ! i) = l @ [ObjectReplacementCharacter] @ r"
    "\<forall>c\<in>set l. isSpace c" "\<forall>c\<in>set r. isSpace c"
    unfolding isImagePreviewBlock_split by blast
  then show ?thesis by auto
qed

lemma previewBlock_count:
  assumes "isImagePreviewBlock st i"
  shows "count_list (blockText (blocks st ! i)) ObjectReplacementCharacter = 1"
proof -
  from assms obtain l r where t: "blockText (blocks st ! i) = l @ [ObjectReplacementCharacter] @ r"
    and "\<forall>c\<in>set l. isSpace c" "\<forall>c\<in>set r. isSpace c"
    unfolding isImagePreviewBlock_split by blast
  then have "ObjectReplacementCharacter \<notin> set l" "ObjectReplacementCharacter \<notin> set r"
    using not_isSpace_ORC by blast+
  then show ?thesis by (simp add: t count_list_0_iff[THEN iffD2])
qed

subsection \<open>The regular expression and the occurrences of the markup\<close>

lemma lit_Some_iff: "lit c s = Some r \<longleftrightarrow> s = c # r"
  by (cases s) auto

lemma dropWhile_neq_eq_Cons:
  "dropWhile (\<lambda>x. x \<noteq> c) s = c # r \<longleftrightarrow> (\<exists>p. s = p @ c # r \<and> c \<notin> set p)"
proof
  assume d: "dropWhile (\<lambda>x. x \<noteq> c) s = c # r"
  have "s = takeWhile (\<lambda>x. x \<noteq> c) s @ dropWhile (\<lambda>x. x \<noteq> c) s" by simp
  with d have "s = takeWhile (\<lambda>x. x \<noteq> c) s @ c # r" by simp
  moreover have "c \<notin> set (takeWhile (\<lambda>x. x \<noteq> c) s)" by (auto dest: set_takeWhileD)
  ultimately show "\<exists>p. s = p @ c # r \<and> c \<notin> set p" by blast
next
  assume "\<exists>p. s = p @ c # r \<and> c \<notin> set p"
  then show "dropWhile (\<lambda>x. x \<noteq> c) s = c # r"
    by (auto simp: dropWhile_append)
qed

lemma takeWhile_neq_append: "c \<notin> set p \<Longrightarrow> takeWhile (\<lambda>x. x \<noteq> c) (p @ c # r) = p"
  by (induction p) auto

lemma matchHere_iff:
  "matchHere t = Some cap \<longleftrightarrow>
     (\<exists>alt rest. t = imageMarkup alt cap @ rest \<and> 0x5D \<notin> set alt \<and> cap \<noteq> [] \<and> 0x29 \<notin> set cap)"
proof
  assume "matchHere t = Some cap"
  then obtain s2 s3 s4 r where t: "t = 0x21 # 0x5B # s2"
    and d1: "dropWhile (\<lambda>c. c \<noteq> 0x5D) s2 = 0x5D # s3" and s3: "s3 = 0x28 # s4"
    and cap: "cap = takeWhile (\<lambda>c. c \<noteq> 0x29) s4" "cap \<noteq> []"
    and d2: "dropWhile (\<lambda>c. c \<noteq> 0x29) s4 = 0x29 # r"
    by (auto simp: matchHere_def lit_Some_iff Let_def split: Option.bind_splits if_splits)
  from d1 obtain alt where alt: "s2 = alt @ 0x5D # s3" "0x5D \<notin> set alt"
    unfolding dropWhile_neq_eq_Cons by blast
  from d2 obtain p where p: "s4 = p @ 0x29 # r" "0x29 \<notin> set p"
    unfolding dropWhile_neq_eq_Cons by blast
  with cap have "cap = p" by (simp add: takeWhile_neq_append)
  with t alt s3 p cap show "\<exists>alt rest. t = imageMarkup alt cap @ rest \<and> 0x5D \<notin> set alt \<and> cap \<noteq> [] \<and> 0x29 \<notin> set cap"
    by (auto simp: imageMarkup_def)
next
  assume "\<exists>alt rest. t = imageMarkup alt cap @ rest \<and> 0x5D \<notin> set alt \<and> cap \<noteq> [] \<and> 0x29 \<notin> set cap"
  then obtain alt rest where t: "t = imageMarkup alt cap @ rest" and a: "0x5D \<notin> set alt"
    and c: "cap \<noteq> []" "0x29 \<notin> set cap" by blast
  have d1: "dropWhile (\<lambda>c. c \<noteq> 0x5D) (alt @ 0x5D # 0x28 # cap @ 0x29 # rest) = 0x5D # 0x28 # cap @ 0x29 # rest"
    using a by (auto simp add: dropWhile_neq_eq_Cons)
  have d2: "dropWhile (\<lambda>c. c \<noteq> 0x29) (cap @ 0x29 # rest) = 0x29 # rest"
    using c by (auto simp add: dropWhile_neq_eq_Cons)
  have t2: "takeWhile (\<lambda>c. c \<noteq> 0x29) (cap @ 0x29 # rest) = cap"
    using c by (simp add: takeWhile_neq_append)
  show "matchHere t = Some cap"
    using c by (simp add: t matchHere_def imageMarkup_def d1 d2 t2)
qed


lemma imageMarkup_length: "length (imageMarkup alt ref) = length alt + length ref + 5"
  by (simp add: imageMarkup_def)

lemma matchHere_alt:
  assumes "t = imageMarkup alt cap @ rest" "0x5D \<notin> set alt"
  shows "takeWhile (\<lambda>c. c \<noteq> 0x5D) (drop 2 t) = alt"
  using assms by (simp add: imageMarkup_def takeWhile_neq_append)

lemma occurrence_iff:
  "occurrence s (i, a, r) \<longleftrightarrow>
     matchHere (drop i s) \<noteq> None \<and> i < length s \<and> (i, a, r) = occAt s i"
proof
  assume o: "occurrence s (i, a, r)"
  let ?alt = "take a (drop (i + 2) s)" and ?ref = "take r (drop (i + a + 4) s)"
  from o have len: "i + a + r + 5 \<le> length s"
    and tk: "take (a + r + 5) (drop i s) = imageMarkup ?alt ?ref"
    and c: "0x5D \<notin> set ?alt" "?ref \<noteq> []" "0x29 \<notin> set ?ref"
    by (auto simp: occurrence_def Let_def)
  have d: "drop i s = imageMarkup ?alt ?ref @ drop (a + r + 5) (drop i s)"
    by (metis append_take_drop_id tk)
  with c have m: "matchHere (drop i s) = Some ?ref"
    unfolding matchHere_iff by blast
  from len have la: "length ?alt = a" and lr: "length ?ref = r" by auto
  have "drop (i + 2) s = drop 2 (drop i s)" by (simp add: add.commute)
  then have "takeWhile (\<lambda>c. c \<noteq> 0x5D) (drop (i + 2) s) = ?alt"
    using matchHere_alt[OF d c(1)] by simp
  with m la lr len show "matchHere (drop i s) \<noteq> None \<and> i < length s \<and> (i, a, r) = occAt s i"
    by (simp add: occAt_def capturedText1_def)
next
  assume "matchHere (drop i s) \<noteq> None \<and> i < length s \<and> (i, a, r) = occAt s i"
  then obtain cap where m: "matchHere (drop i s) = Some cap" and i: "i < length s"
    and ar: "a = length (takeWhile (\<lambda>c. c \<noteq> 0x5D) (drop (i + 2) s))" "r = length cap"
    by (auto simp: occAt_def capturedText1_def)
  from m obtain alt rest where d: "drop i s = imageMarkup alt cap @ rest"
    and c: "0x5D \<notin> set alt" "cap \<noteq> []" "0x29 \<notin> set cap"
    unfolding matchHere_iff by blast
  have "drop (i + 2) s = drop 2 (drop i s)" by (simp add: add.commute)
  then have a: "a = length alt"
    using matchHere_alt[OF d c(1)] ar(1) by simp
  have "length (drop i s) = length alt + length cap + 5 + length rest"
    by (simp add: d imageMarkup_length)
  then have len: "i + a + r + 5 \<le> length s" using a ar(2) by simp
  have "drop (i + 2) s = drop 2 (drop i s)" by (simp add: add.commute)
  then have d2: "drop (i + 2) s = alt @ [0x5D, 0x28] @ cap @ [0x29] @ rest"
    by (simp add: d imageMarkup_def)
  then have t1: "take a (drop (i + 2) s) = alt" by (simp add: a)
  have "i + a + 4 = a + 2 + (i + 2)" by simp
  then have "drop (i + a + 4) s = drop (a + 2) (drop (i + 2) s)"
    by (simp only: drop_drop)
  also have "\<dots> = cap @ [0x29] @ rest" by (subst d2) (simp add: a)
  finally have t2: "take r (drop (i + a + 4) s) = cap" by (simp add: ar(2))
  have t3: "take (a + r + 5) (drop i s) = imageMarkup alt cap"
    by (simp add: d a ar(2) imageMarkup_length)
  from len t1 t2 t3 c show "occurrence s (i, a, r)"
    unfolding occurrence_def Let_def prod.case by (simp only: simp_thms)
qed


lemma set_occurrences: "set (occurrences s) = occAt s ` set (matchPositions s)"
proof (intro set_eqI iffI)
  fix x assume "x \<in> set (occurrences s)"
  then have o: "occurrence s x" by (simp add: occurrences_def)
  obtain i a r where x: "x = (i, a, r)" by (cases x) auto
  from o show "x \<in> occAt s ` set (matchPositions s)"
    unfolding x occurrence_iff by (auto simp: matchPositions_def)
next
  fix x assume "x \<in> occAt s ` set (matchPositions s)"
  then obtain i where i: "matchHere (drop i s) \<noteq> None" "i < length s" and x: "x = occAt s i"
    by (auto simp: matchPositions_def)
  obtain a r where ar: "occAt s i = (i, a, r)" by (simp add: occAt_def)
  with i have o: "occurrence s (i, a, r)" by (simp add: occurrence_iff)
  then have "i + a + r + 5 \<le> length s" by (simp add: occurrence_def Let_def)
  with o show "x \<in> set (occurrences s)"
    by (simp add: occurrences_def x ar)
qed

lemma distinct_occurrences: "distinct (occurrences s)"
  by (simp add: occurrences_def distinct_product)

lemma distinct_matchPositions: "distinct (matchPositions s)"
  by (simp add: matchPositions_def)

lemma fst_occAt: "fst (occAt s i) = i"
  by (simp add: occAt_def)

lemma occurrences_Nil: "matchPositions s = [] \<Longrightarrow> occurrences s = []"
  using set_occurrences[of s] by simp

lemma occurrences_single: "matchPositions s = [p] \<Longrightarrow> occurrences s = [occAt s p]"
proof -
  assume "matchPositions s = [p]"
  then have st: "set (occurrences s) = {occAt s p}" by (simp add: set_occurrences)
  have "length (occurrences s) = card (set (occurrences s))"
    using distinct_card[OF distinct_occurrences[of s]] by simp
  also have "\<dots> = 1" by (simp add: st)
  finally obtain x where "occurrences s = [x]"
    by (cases "occurrences s") auto
  with st show ?thesis by simp
qed

lemma occurrences_many:
  assumes "matchPositions s = p # q # ps"
  shows "2 \<le> length (occurrences s)"
proof -
  from assms distinct_matchPositions[of s] have "p \<noteq> q" by auto
  then have "occAt s p \<noteq> occAt s q" using fst_occAt[of s p] fst_occAt[of s q] by auto
  then have c: "card {occAt s p, occAt s q} = 2" by simp
  from assms have "{occAt s p, occAt s q} \<subseteq> set (occurrences s)"
    by (simp add: set_occurrences)
  from card_mono[OF finite_set this] c have "2 \<le> card (set (occurrences s))" by simp
  then show ?thesis
    using card_length[of "occurrences s"] by linarith
qed

lemma matchPositions_many_last:
  assumes "matchPositions s = p # q # ps"
  shows "indexIn s = int p \<and> lastIndexIn s \<noteq> int p"
proof -
  obtain x xs where r: "rev (q # ps) = x # xs" by (cases "rev (q # ps)") auto
  then have "set (rev (q # ps)) = set (x # xs)" by (simp only:)
  then have "x \<in> set (q # ps)" by (simp only: set_rev) simp
  with assms distinct_matchPositions[of s] have "x \<noteq> p" by auto
  moreover have "rev (p # q # ps) = x # xs @ [p]" using r by simp
  ultimately show ?thesis
    using assms by (simp add: lastIndexIn_def indexIn_def)
qed


lemma fetchImageUrlToPreview_occurrences:
  "fetchImageUrlToPreview s =
     (case occurrences s of [(i, a, r)] \<Rightarrow> take r (drop (i + a + 4) s) | _ \<Rightarrow> [])"
proof (cases "matchPositions s")
  case Nil
  then show ?thesis
    by (simp add: occurrences_Nil fetchImageUrlToPreview_def indexIn_def)
next
  case (Cons p ps)
  show ?thesis
  proof (cases ps)
    case Nil
    with Cons have mp: "matchPositions s = [p]" by simp
    then have "p \<in> set (matchPositions s)" by simp
    then have m: "matchHere (drop p s) \<noteq> None" "p < length s" by (auto simp: matchPositions_def)
    obtain a r where ar: "occAt s p = (p, a, r)" by (simp add: occAt_def)
    with m have "occurrence s (p, a, r)" by (simp add: occurrence_iff)
    then have o: "take (a + r + 5) (drop p s) = imageMarkup (take a (drop (p + 2) s)) (take r (drop (p + a + 4) s))"
      "0x5D \<notin> set (take a (drop (p + 2) s))" "take r (drop (p + a + 4) s) \<noteq> []"
      "0x29 \<notin> set (take r (drop (p + a + 4) s))"
      by (auto simp: occurrence_def Let_def)
    have "drop p s = imageMarkup (take a (drop (p + 2) s)) (take r (drop (p + a + 4) s)) @ drop (a + r + 5) (drop p s)"
      by (metis append_take_drop_id o(1))
    with o have "matchHere (drop p s) = Some (take r (drop (p + a + 4) s))"
      unfolding matchHere_iff by blast
    then show ?thesis
      by (simp add: occurrences_single[OF mp] ar fetchImageUrlToPreview_def indexIn_def
          lastIndexIn_def mp capturedText1_def)
  next
    case (Cons q qs)
    with \<open>matchPositions s = p # ps\<close> have mp: "matchPositions s = p # q # qs" by simp
    from occurrences_many[OF mp] obtain x y zs where "occurrences s = x # y # zs"
      by (cases "occurrences s"; cases "tl (occurrences s)") auto
    then show ?thesis
      using matchPositions_many_last[OF mp]
      by (simp add: fetchImageUrlToPreview_def Let_def)
  qed
qed

lemma occurrences_example_one: "occurrences (fromLatin1 ''![a](b)'') = [(0, 1, 1)]"
  by code_simp

lemma occurrences_example_two: "occurrences (fromLatin1 ''![![](a)'') = [(0, 2, 1), (2, 0, 1)]"
  by code_simp

lemma occurrence_ref_nonempty:
  "occurrence s (i, a, r) \<Longrightarrow> take r (drop (i + a + 4) s) \<noteq> []"
  by (simp add: occurrence_def Let_def)

lemma blockText_plain: "blockText (plain s) = fromLatin1 s"
  by (simp add: blockText_def plain_def fromLatin1_def)

subsection \<open>Exact effects and what the steps leave alone\<close>

lemmas edit_defs = documentChanged_def handleContentChange_def beginEditBlock_def
  endEditBlock_def setModified_def removeSelectedBlock_def insertBlock_def insertImage_def
  setCharFormat_def

lemma sameEngine_refl: "sameEngine st st"
  by (simp add: sameEngine_def sameControl_def)

lemma sameEngine_trans: "sameEngine a b \<Longrightarrow> sameEngine b c \<Longrightarrow> sameEngine a c"
  by (simp add: sameEngine_def sameControl_def)

lemma isImagePreviewBlock_blocks:
  "blocks a = blocks b \<Longrightarrow> isImagePreviewBlock a j = isImagePreviewBlock b j"
  by (simp add: isImagePreviewBlock_def)

lemma sameControl_refl: "sameControl st st"
  by (simp add: sameControl_def)

lemma sameControl_trans: "sameControl a b \<Longrightarrow> sameControl b c \<Longrightarrow> sameControl a c"
  by (simp add: sameControl_def)

lemma deleteChar_exact:
  "pos < length (blocks st ! i) \<Longrightarrow>
   deleteChar w st i pos =
     st\<lparr>blocks := (blocks st)[i := deleteCluster w (blocks st ! i) pos],
        modified := True,
        undoSteps := (if 0 < editBlock st \<and> editBlockDirty st then undoSteps st else Suc (undoSteps st)),
        editBlockDirty := True,
        timerActive := True\<rparr>"
  using nextCursorPosition_bounds[of pos "blockText (blocks st ! i)" w]
  by (simp add: deleteChar_def deleteCluster_def edit_defs Let_def blockText_def)

lemma edit_fold_exact:
  assumes f: "\<And>s p. p < length (blocks s ! i) \<Longrightarrow> f s p =
     s\<lparr>blocks := (blocks s)[i := g (blocks s ! i) p],
       modified := True,
       undoSteps := (if 0 < editBlock s \<and> editBlockDirty s then undoSteps s else Suc (undoSteps s)),
       editBlockDirty := True,
       timerActive := True\<rparr>"
    and g: "\<And>b p. p < length b \<Longrightarrow> p \<le> length (g b p)"
  shows "ps \<noteq> [] \<Longrightarrow> 0 < editBlock st \<Longrightarrow> i < length (blocks st) \<Longrightarrow>
   sorted_wrt (\<lambda>x y. y < x) ps \<Longrightarrow> \<forall>p\<in>set ps. p < length (blocks st ! i) \<Longrightarrow>
   foldl f st ps =
     st\<lparr>blocks := (blocks st)[i := foldl g (blocks st ! i) ps],
        modified := True,
        undoSteps := (if editBlockDirty st then undoSteps st else Suc (undoSteps st)),
        editBlockDirty := True,
        timerActive := True\<rparr>"
proof (induction ps arbitrary: st)
  case Nil
  then show ?case by simp
next
  case (Cons p ps)
  from Cons.prems have p: "p < length (blocks st ! i)" by simp
  note fp = f[OF p]
  show ?case
  proof (cases "ps = []")
    case True
    then show ?thesis using Cons.prems by (simp add: fp)
  next
    case False
    have e: "0 < editBlock (f st p)" using Cons.prems by (simp add: fp)
    have i: "i < length (blocks (f st p))" using Cons.prems by (simp add: fp)
    have srt: "sorted_wrt (\<lambda>x y. y < x) ps" using Cons.prems by simp
    have b: "blocks (f st p) ! i = g (blocks st ! i) p" using Cons.prems by (simp add: fp)
    have "\<forall>q\<in>set ps. q < length (blocks (f st p) ! i)"
      using Cons.prems g[OF p] unfolding b by fastforce
    from Cons.IH[OF False e i srt this] Cons.prems show ?thesis
      by (simp add: fp)
  qed
qed

lemma deleteChar_fold_exact:
  "ps \<noteq> [] \<Longrightarrow> 0 < editBlock st \<Longrightarrow> i < length (blocks st) \<Longrightarrow>
   sorted_wrt (\<lambda>x y. y < x) ps \<Longrightarrow> \<forall>p\<in>set ps. p < length (blocks st ! i) \<Longrightarrow>
   foldl (\<lambda>s pos. deleteChar w s i pos) st ps =
     st\<lparr>blocks := (blocks st)[i := foldl (deleteCluster w) (blocks st ! i) ps],
        modified := True,
        undoSteps := (if editBlockDirty st then undoSteps st else Suc (undoSteps st)),
        editBlockDirty := True,
        timerActive := True\<rparr>"
  by (rule edit_fold_exact) (simp_all add: deleteChar_exact length_deleteCluster)

lemma clearCorrupted_exact:
  "clearCorruptedImagePreviewBlock w st i =
     (if i < length (blocks st) \<and> corrupted (blocks st ! i) then
        (if blockText (deleteClusters w (blocks st ! i)) =
              filter (\<lambda>c. c \<noteq> ObjectReplacementCharacter) (blockText (blocks st ! i))
         then Some (st\<lparr>blocks := (blocks st)[i := deleteClusters w (blocks st ! i)],
                undoSteps := (if 0 < editBlock st \<and> editBlockDirty st then undoSteps st
                              else Suc (undoSteps st)),
                editBlockDirty := True,
                timerActive := True\<rparr>)
         else None)
      else Some st)"
proof (cases "i < length (blocks st) \<and> corrupted (blocks st ! i)")
  case False
  then show ?thesis
    by (auto simp add: clearCorruptedImagePreviewBlock_def scanReplacementChars_eq Let_def
        corrupted_def filter_positions_Nil_iff)
next
  case True
  let ?b = "blocks st ! i"
  let ?t = "blockText ?b"
  let ?ps = "filter (\<lambda>i. ?t ! i = ObjectReplacementCharacter) [0..<length ?t]"
  let ?st2 = "foldl (\<lambda>s pos. deleteChar w s i pos) (beginEditBlock st) (rev ?ps)"
  let ?st4 = "setModified (endEditBlock ?st2) (modified st)"
  from True have i: "i < length (blocks st)" and ne: "?ps \<noteq> []"
    and nos: "\<not> (\<forall>c\<in>set ?t. c = ObjectReplacementCharacter \<or> isSpace c)"
    by (auto simp: corrupted_def filter_positions_Nil_iff)
  have ps: "?ps = filter (\<lambda>k. fst (?b ! k) = ObjectReplacementCharacter) [0..<length ?b]"
    by (auto simp: blockText_def intro: filter_cong)
  have fold: "foldl (deleteCluster w) ?b (rev ?ps) = deleteClusters w ?b"
    unfolding ps by (simp add: deleteClusters_def)
  have srt: "sorted_wrt (\<lambda>x y. y < x) (rev ?ps)"
    by (simp add: sorted_wrt_rev sorted_wrt_filter)
  have bnd: "\<forall>p\<in>set (rev ?ps). p < length (blocks (beginEditBlock st) ! i)"
    by (auto simp: beginEditBlock_def blockText_def)
  have st2: "?st2 = (beginEditBlock st)\<lparr>blocks := (blocks st)[i := deleteClusters w ?b],
        modified := True,
        undoSteps := (if editBlockDirty (beginEditBlock st) then undoSteps st else Suc (undoSteps st)),
        editBlockDirty := True,
        timerActive := True\<rparr>"
    using deleteChar_fold_exact[of "rev ?ps" "beginEditBlock st" i w, OF _ _ _ srt bnd] ne i
    by (simp add: beginEditBlock_def fold)
  have st4: "?st4 = st\<lparr>blocks := (blocks st)[i := deleteClusters w ?b],
                undoSteps := (if 0 < editBlock st \<and> editBlockDirty st then undoSteps st
                              else Suc (undoSteps st)),
                editBlockDirty := True,
                timerActive := True\<rparr>"
    unfolding st2 by (simp add: beginEditBlock_def endEditBlock_def setModified_def)
  have b4: "blocks ?st4 ! i = deleteClusters w ?b"
    unfolding st4 using i by simp
  have "clearCorruptedImagePreviewBlock w st i =
          (if filter (\<lambda>c. c \<noteq> ObjectReplacementCharacter) ?t = blockText (blocks ?st4 ! i)
           then Some ?st4 else None)"
    using i ne nos
    by (simp add: clearCorruptedImagePreviewBlock_def scanReplacementChars_eq V_ASSERT_def Let_def)
  then show ?thesis using True unfolding b4 by (auto simp: st4)
qed

lemma clearCorrupted_alone:
  assumes "i < length (blocks st)" and "corrupted (blocks st ! i)"
    and "placeholdersAlone w (blockText (blocks st ! i))"
  shows "clearCorruptedImagePreviewBlock w st i =
     Some (st\<lparr>blocks := (blocks st)[i := filter (\<lambda>c. fst c \<noteq> ObjectReplacementCharacter) (blocks st ! i)],
                undoSteps := (if 0 < editBlock st \<and> editBlockDirty st then undoSteps st
                              else Suc (undoSteps st)),
                editBlockDirty := True,
                timerActive := True\<rparr>)"
  using assms
  by (simp add: clearCorrupted_exact deleteClusters_alone blockText_def filter_map comp_def)

text \<open>The cleanup of a corrupted block returns exactly when every placeholder of the
  block is a grapheme cluster of its own.\<close>

lemma clearCorrupted_returns_iff:
  "i < length (blocks st) \<Longrightarrow> corrupted (blocks st ! i) \<Longrightarrow>
   clearCorruptedImagePreviewBlock w st i \<noteq> None \<longleftrightarrow>
     placeholdersAlone w (blockText (blocks st ! i))"
  by (simp add: clearCorrupted_exact deleteClusters_alone_iff)

lemma removeBlock_exact:
  "removeBlock st i =
     (if length (blocks st) \<le> i \<or> blocks st ! i = [] then st
      else st\<lparr>blocks := (if i = 0 then (blocks st)[0 := []]
                           else take i (blocks st) @ drop (Suc i) (blocks st)),
              undoSteps := (if 0 < editBlock st \<and> editBlockDirty st then undoSteps st
                            else Suc (undoSteps st)),
              editBlockDirty := True,
              timerActive := True\<rparr>)"
  by (simp add: removeBlock_def edit_defs Let_def)

lemma sameEngine_removeBlock: "sameEngine st (removeBlock st i)"
  by (simp add: removeBlock_exact sameEngine_def sameControl_def)

lemma sameEngine_clearCorrupted:
  "clearCorruptedImagePreviewBlock w st i = Some st' \<Longrightarrow> sameEngine st st'"
  by (auto simp: clearCorrupted_exact sameEngine_def sameControl_def split: if_splits)

lemma clearCorrupted_cleaned:
  assumes "clearCorruptedImagePreviewBlock w st i = Some st'"
    and "i < length (blocks st)" and "corrupted (blocks st ! i)"
  shows "blocks st' = (blocks st)[i := deleteClusters w (blocks st ! i)]"
    and "blockText (deleteClusters w (blocks st ! i)) =
           filter (\<lambda>c. c \<noteq> ObjectReplacementCharacter) (blockText (blocks st ! i))"
    and "m_imageCache st' = m_imageCache st"
  using assms by (auto simp: clearCorrupted_exact split: if_splits)

lemma clearCorrupted_not_preview:
  assumes "clearCorruptedImagePreviewBlock w st i = Some st'"
  shows "isImagePreviewBlock st' j \<longleftrightarrow> isImagePreviewBlock st j"
proof (cases "i < length (blocks st) \<and> corrupted (blocks st ! i)")
  case False
  with assms show ?thesis by (simp add: clearCorrupted_exact)
next
  case True
  then obtain c where c: "c \<in> set (blockText (blocks st ! i))" "c \<noteq> ObjectReplacementCharacter"
    "\<not> isSpace c" by (auto simp: corrupted_def)
  let ?b' = "deleteClusters w (blocks st ! i)"
  from True have i: "i < length (blocks st)" and co: "corrupted (blocks st ! i)" by simp_all
  note cl = clearCorrupted_cleaned[OF assms i co]
  from c have c': "c \<in> set (blockText ?b')" by (simp add: cl(2))
  have n1: "\<not> isImagePreviewBlock st i"
    using previewBlock_onlySpaces[of st i] c by blast
  have "blocks st' ! i = ?b'" using i cl(1) by simp
  with c' c have n2: "\<not> isImagePreviewBlock st' i"
    using previewBlock_onlySpaces[of st' i] by metis
  show ?thesis
  proof (cases "j = i")
    case True
    with n1 n2 show ?thesis by simp
  next
    case False
    then show ?thesis by (simp add: isImagePreviewBlock_def cl(1))
  qed
qed

lemma clearCorrupted_not_corrupted:
  assumes "clearCorruptedImagePreviewBlock w st i = Some st'" and "i < length (blocks st)"
  shows "\<not> corrupted (blocks st' ! i)" and "j \<noteq> i \<Longrightarrow> blocks st' ! j = blocks st ! j"
    and "length (blocks st') = length (blocks st)"
proof -
  have "\<not> corrupted (blocks st' ! i) \<and> (j \<noteq> i \<longrightarrow> blocks st' ! j = blocks st ! j) \<and>
        length (blocks st') = length (blocks st)"
  proof (cases "corrupted (blocks st ! i)")
    case False
    with assms show ?thesis by (simp add: clearCorrupted_exact)
  next
    case True
    note cl = clearCorrupted_cleaned[OF assms True]
    have "ObjectReplacementCharacter \<notin> set (blockText (deleteClusters w (blocks st ! i)))"
      by (simp add: cl(2))
    then have "\<not> corrupted (deleteClusters w (blocks st ! i))" by (simp add: corrupted_def)
    with assms(2) show ?thesis by (simp add: cl(1))
  qed
  then show "\<not> corrupted (blocks st' ! i)" and "j \<noteq> i \<Longrightarrow> blocks st' ! j = blocks st ! j"
    and "length (blocks st') = length (blocks st)" by simp_all
qed

lemma not_corrupted_Nil: "\<not> corrupted []"
  by (simp add: corrupted_def blockText_def)

lemma clearLoop_result:
  "clearLoop w st b = Some st' \<Longrightarrow>
     sameEngine st st' \<and>
     ((\<forall>j<b. \<not> isImagePreviewBlock st j) \<longrightarrow> (\<forall>j. \<not> isImagePreviewBlock st' j)) \<and>
     ((\<forall>j<b. j < length (blocks st) \<longrightarrow> \<not> corrupted (blocks st ! j)) \<longrightarrow>
        (\<forall>c\<in>set (blocks st'). \<not> corrupted c))"
proof (induction w st b rule: clearLoop.induct)
  case (1 w st b)
  show ?case
  proof (cases "b < length (blocks st)")
    case False
    with "1.prems" have "st' = st" by (subst (asm) clearLoop.simps) simp
    with False show ?thesis
      by (auto simp: sameEngine_refl isImagePreviewBlock_def in_set_conv_nth)
  next
    case inside: True
    show ?thesis
    proof (cases "isImagePreviewBlock st b")
      case True
      let ?st1 = "removeBlock st b"
      let ?b1 = "handleAfter st ?st1 (Suc b)"
      from "1.prems" inside True have r: "clearLoop w ?st1 ?b1 = Some st'"
        by (subst (asm) clearLoop.simps) simp
      from "1.IH"(1)[OF inside True r] have c: "sameEngine ?st1 st'"
        and p: "(\<forall>j<?b1. \<not> isImagePreviewBlock ?st1 j) \<longrightarrow> (\<forall>j. \<not> isImagePreviewBlock st' j)"
        and q: "(\<forall>j<?b1. j < length (blocks ?st1) \<longrightarrow> \<not> corrupted (blocks ?st1 ! j)) \<longrightarrow>
                  (\<forall>c\<in>set (blocks st'). \<not> corrupted c)"
        by blast+
      have "(\<forall>j<b. \<not> isImagePreviewBlock st j) \<longrightarrow> (\<forall>j<?b1. \<not> isImagePreviewBlock ?st1 j)"
        using inside True
        by (auto simp: removeBlock_exact handleAfter_def isImagePreviewBlock_def nth_append
            trimmed_def blockText_def less_Suc_eq split: if_splits)
      moreover have "(\<forall>j<b. j < length (blocks st) \<longrightarrow> \<not> corrupted (blocks st ! j)) \<longrightarrow>
          (\<forall>j<?b1. j < length (blocks ?st1) \<longrightarrow> \<not> corrupted (blocks ?st1 ! j))"
        using inside
        by (auto simp: removeBlock_exact handleAfter_def nth_append not_corrupted_Nil
            less_Suc_eq split: if_splits)
      ultimately show ?thesis
        using c p q sameEngine_removeBlock[of st b] by (blast intro: sameEngine_trans)
    next
      case False
      from "1.prems" inside False obtain st1 where
        cc: "clearCorruptedImagePreviewBlock w st b = Some st1" and r: "clearLoop w st1 (Suc b) = Some st'"
        by (subst (asm) clearLoop.simps) (auto split: option.splits)
      from "1.IH"(2)[OF inside False cc r] have c: "sameEngine st1 st'"
        and p: "(\<forall>j<Suc b. \<not> isImagePreviewBlock st1 j) \<longrightarrow> (\<forall>j. \<not> isImagePreviewBlock st' j)"
        and q: "(\<forall>j<Suc b. j < length (blocks st1) \<longrightarrow> \<not> corrupted (blocks st1 ! j)) \<longrightarrow>
                  (\<forall>c\<in>set (blocks st'). \<not> corrupted c)"
        by blast+
      have "(\<forall>j<b. \<not> isImagePreviewBlock st j) \<longrightarrow> (\<forall>j<Suc b. \<not> isImagePreviewBlock st1 j)"
        using False clearCorrupted_not_preview[OF cc] by (auto simp: less_Suc_eq)
      moreover have "(\<forall>j<b. j < length (blocks st) \<longrightarrow> \<not> corrupted (blocks st ! j)) \<longrightarrow>
          (\<forall>j<Suc b. j < length (blocks st1) \<longrightarrow> \<not> corrupted (blocks st1 ! j))"
        using clearCorrupted_not_corrupted[OF cc inside]
        by (metis less_Suc_eq less_irrefl_nat)
      ultimately show ?thesis
        using c p q sameEngine_clearCorrupted[OF cc] by (blast intro: sameEngine_trans)
    qed
  qed
qed

lemma cleanable_blocks: "blocks a = blocks b \<Longrightarrow> cleanable w a = cleanable w b"
  by (simp add: cleanable_def)

lemma cleanable_removeBlock: "cleanable w st \<Longrightarrow> cleanable w (removeBlock st i)"
proof -
  assume c: "cleanable w st"
  have "set (blocks (removeBlock st i)) \<subseteq> insert [] (set (blocks st))"
    using set_update_subset_insert[of "blocks st" 0 "[]"]
      set_take_subset[of i "blocks st"] set_drop_subset[of "Suc i" "blocks st"]
    by (auto simp: removeBlock_exact)
  with c show ?thesis
    using not_corrupted_Nil by (auto simp: cleanable_def)
qed

lemma clearCorrupted_returns:
  assumes "cleanable w st"
  shows "\<exists>st1. clearCorruptedImagePreviewBlock w st i = Some st1 \<and> cleanable w st1"
proof (cases "i < length (blocks st) \<and> corrupted (blocks st ! i)")
  case False
  then have "clearCorruptedImagePreviewBlock w st i = Some st"
    by (auto simp: clearCorrupted_exact)
  with assms show ?thesis by simp
next
  case True
  with assms have a: "placeholdersAlone w (blockText (blocks st ! i))"
    by (simp add: cleanable_def)
  let ?b' = "filter (\<lambda>c. fst c \<noteq> ObjectReplacementCharacter) (blocks st ! i)"
  from True a obtain st1 where r: "clearCorruptedImagePreviewBlock w st i = Some st1"
    and b: "blocks st1 = (blocks st)[i := ?b']"
    by (simp add: clearCorrupted_alone)
  have "ObjectReplacementCharacter \<notin> set (blockText ?b')" by (auto simp: blockText_def)
  then have "\<not> corrupted ?b'" by (simp add: corrupted_def)
  moreover have "set (blocks st1) \<subseteq> insert ?b' (set (blocks st))"
    unfolding b by (rule set_update_subset_insert)
  ultimately have "cleanable w st1" using assms by (auto simp: cleanable_def)
  with r show ?thesis by blast
qed

lemma clearLoop_returns: "cleanable w st \<Longrightarrow> \<exists>st'. clearLoop w st b = Some st'"
proof (induction w st b rule: clearLoop.induct)
  case (1 w st b)
  show ?case
  proof (cases "b < length (blocks st)")
    case False
    then show ?thesis by (subst clearLoop.simps) simp
  next
    case inside: True
    show ?thesis
    proof (cases "isImagePreviewBlock st b")
      case True
      from "1.IH"(1)[OF inside True cleanable_removeBlock[OF "1.prems"]] inside True
      show ?thesis by (subst clearLoop.simps) simp
    next
      case False
      from clearCorrupted_returns[OF "1.prems"] obtain st1 where
        cc: "clearCorruptedImagePreviewBlock w st b = Some st1" and cl: "cleanable w st1" by blast
      from "1.IH"(2)[OF inside False cc cl] inside False cc
      show ?thesis by (subst clearLoop.simps) simp
    qed
  qed
qed

lemma clearAll_result:
  assumes "clearAllImagePreviewBlocks w st = Some st'"
  shows "sameControl st st' \<and> m_imageCache st' = m_imageCache st \<and> resources st' = resources st \<and>
         modified st' = modified st \<and> (\<forall>j. \<not> isImagePreviewBlock st' j) \<and>
         (\<forall>c\<in>set (blocks st'). \<not> corrupted c)"
proof -
  from assms obtain st2 where r: "clearLoop w (beginEditBlock st) 0 = Some st2"
    and st': "st' = (setModified (endEditBlock st2) (modified st))
                      \<lparr>statusChanged := Suc (statusChanged (setModified (endEditBlock st2) (modified st)))\<rparr>"
    by (auto simp: clearAllImagePreviewBlocks_def V_ASSERT_def Let_def split: Option.bind_splits if_splits)
  from clearLoop_result[OF r] have c: "sameEngine (beginEditBlock st) st2"
    and p: "\<forall>j. \<not> isImagePreviewBlock st2 j" and q: "\<forall>c\<in>set (blocks st2). \<not> corrupted c"
    by simp_all
  have b: "blocks st' = blocks st2" by (simp add: st' edit_defs)
  from isImagePreviewBlock_blocks[OF this] p have "\<forall>j. \<not> isImagePreviewBlock st' j" by simp
  moreover from c have "sameControl st st'" "m_imageCache st' = m_imageCache st"
    "resources st' = resources st" "modified st' = modified st"
    by (simp_all add: st' sameEngine_def sameControl_def edit_defs)
  ultimately show ?thesis using q b by simp
qed

lemma clearAll_returns:
  assumes "\<not> m_isPreviewing st" and "cleanable w st"
  shows "\<exists>st'. clearAllImagePreviewBlocks w st = Some st'"
proof -
  have "blocks (beginEditBlock st) = blocks st" by (simp add: beginEditBlock_def)
  from cleanable_blocks[OF this] assms(2) have "cleanable w (beginEditBlock st)" by simp
  from clearLoop_returns[OF this] obtain st2 where "clearLoop w (beginEditBlock st) 0 = Some st2"
    by blast
  with assms(1) show ?thesis
    by (simp add: clearAllImagePreviewBlocks_def V_ASSERT_def Let_def)
qed

lemma refresh_result:
  assumes "\<not> m_isPreviewing st" and "refresh w st = Some st'"
  shows "sameControl st st' \<and> m_imageCache st' = Map.empty \<and> (\<forall>j. \<not> isImagePreviewBlock st' j)"
proof -
  let ?st2 = "st\<lparr>timerActive := False, m_imageCache := Map.empty\<rparr>"
  from assms obtain st3 where r: "clearAllImagePreviewBlocks w ?st2 = Some st3"
    and st': "st' = st3\<lparr>timerActive := True\<rparr>"
    by (auto simp: refresh_def Let_def split: Option.bind_splits)
  from clearAll_result[OF r] have c: "sameControl ?st2 st3"
    and m: "m_imageCache st3 = Map.empty" and p: "\<forall>j. \<not> isImagePreviewBlock st3 j"
    by simp_all
  have "blocks st' = blocks st3" by (simp add: st')
  from isImagePreviewBlock_blocks[OF this] p have "\<forall>j. \<not> isImagePreviewBlock st' j" by simp
  with c m show ?thesis by (simp add: st' sameControl_def)
qed

lemma refresh_returns:
  assumes "cleanable w st"
  shows "\<exists>st'. refresh w st = Some st'"
proof (cases "m_isPreviewing st")
  case True
  then show ?thesis by (simp add: refresh_def)
next
  case False
  let ?st2 = "st\<lparr>timerActive := False, m_imageCache := Map.empty\<rparr>"
  have "blocks ?st2 = blocks st" by simp
  from cleanable_blocks[OF this] assms have "cleanable w ?st2" by simp
  moreover from False have "\<not> m_isPreviewing ?st2" by simp
  ultimately obtain st3 where "clearAllImagePreviewBlocks w ?st2 = Some st3"
    using clearAll_returns by blast
  with False show ?thesis by (simp add: refresh_def Let_def)
qed

lemma sameControl_imageCacheResourceName:
  "imageCacheResourceName w st p = Some (st', n) \<Longrightarrow> sameControl st st'"
  by (auto simp: imageCacheResourceName_def V_ASSERT_def Let_def sameControl_def
      split: if_splits option.splits Option.bind_splits)

lemma sameControl_insertImagePreviewBlock:
  "insertImagePreviewBlock w st i p = Some (st', j) \<Longrightarrow> sameControl st st'"
  by (auto simp: insertImagePreviewBlock_def V_ASSERT_def Let_def sameControl_def edit_defs
      dest!: sameControl_imageCacheResourceName
      split: if_splits Option.bind_splits prod.splits)

lemma sameControl_updateImagePreviewBlock:
  "updateImagePreviewBlock w st i p = Some st' \<Longrightarrow> sameControl st st'"
  by (auto simp: updateImagePreviewBlock_def updateFormatInPreviewBlock_def V_ASSERT_def Let_def
      sameControl_def removeBlock_exact edit_defs
      dest!: sameControl_imageCacheResourceName
      split: if_splits Option.bind_splits prod.splits)

lemma sameControl_previewImageOfOneBlock:
  "previewImageOfOneBlock w st i = Some (st', i') \<Longrightarrow> sameControl st st'"
  by (auto simp: previewImageOfOneBlock_def Let_def sameControl_refl
      dest: sameControl_updateImagePreviewBlock sameControl_insertImagePreviewBlock
      split: if_splits Option.bind_splits prod.splits)

lemma sameControl_previewStep:
  "previewStep w st i = Some (st', i') \<Longrightarrow> sameControl st st'"
  by (auto simp: previewStep_def Let_def sameControl_refl
      intro: sameControl_trans sameEngine_removeBlock[unfolded sameEngine_def, THEN conjunct1]
      dest: sameControl_previewImageOfOneBlock
            sameEngine_clearCorrupted[unfolded sameEngine_def, THEN conjunct1]
      split: if_splits Option.bind_splits prod.splits)

lemma sameControl_previewLoop:
  "previewLoop w st b = Some st' \<Longrightarrow> sameControl st st'"
proof (induction w st b rule: previewLoop.induct)
  case (1 w st b)
  show ?case
  proof (cases "b < length (blocks st) \<and> m_enablePreview st")
    case False
    with "1.prems" show ?thesis
      by (subst (asm) previewLoop.simps) (auto simp: sameControl_refl)
  next
    case True
    with "1.prems" obtain st1 nb where
      s: "previewStep w st b = Some (st1, nb)" and l: "previewLoop w st1 nb = Some st'"
      by (subst (asm) previewLoop.simps) (auto split: option.splits)
    from "1.IH"[OF True s refl l] sameControl_previewStep[OF s] show ?thesis
      by (rule sameControl_trans[rotated])
  qed
qed

lemma previewLoop_disabled: "\<not> m_enablePreview st \<Longrightarrow> previewLoop w st b = Some st"
  by (subst previewLoop.simps) simp

lemma finishPreview_result:
  assumes "finishPreview w st = Some st'"
  shows "\<not> m_isPreviewing st' \<and> \<not> m_requestCearBlocks st' \<and>
         \<not> m_requestRefreshBlocks st' \<and> m_enablePreview st' = m_enablePreview st \<and>
         (m_requestCearBlocks st \<or> m_requestRefreshBlocks st \<longrightarrow> (\<forall>j. \<not> isImagePreviewBlock st' j)) \<and>
         (\<not> m_requestCearBlocks st \<and> \<not> m_requestRefreshBlocks st \<longrightarrow>
            st' = st\<lparr>m_isPreviewing := False, statusChanged := Suc (statusChanged st)\<rparr>)"
proof -
  let ?st1 = "st\<lparr>m_isPreviewing := False\<rparr>"
  from assms obtain st2 st3 where
    st2: "(if m_requestCearBlocks ?st1
             then clearAllImagePreviewBlocks w (?st1\<lparr>m_requestCearBlocks := False\<rparr>)
             else Some ?st1) = Some st2"
    and st3: "(if m_requestRefreshBlocks st2
             then refresh w (st2\<lparr>m_requestRefreshBlocks := False\<rparr>)
             else Some st2) = Some st3"
    and st': "st' = st3\<lparr>statusChanged := Suc (statusChanged st3)\<rparr>"
    by (auto simp: finishPreview_def Let_def split: Option.bind_splits)
  have c2: "\<not> m_isPreviewing st2" "\<not> m_requestCearBlocks st2"
      "m_requestRefreshBlocks st2 = m_requestRefreshBlocks st" "m_enablePreview st2 = m_enablePreview st"
    and p2: "m_requestCearBlocks st \<longrightarrow> (\<forall>j. \<not> isImagePreviewBlock st2 j)"
    and e2: "\<not> m_requestCearBlocks st \<longrightarrow> st2 = ?st1"
  proof -
    have "\<not> m_isPreviewing st2 \<and> \<not> m_requestCearBlocks st2 \<and>
      m_requestRefreshBlocks st2 = m_requestRefreshBlocks st \<and> m_enablePreview st2 = m_enablePreview st \<and>
      (m_requestCearBlocks st \<longrightarrow> (\<forall>j. \<not> isImagePreviewBlock st2 j)) \<and>
      (\<not> m_requestCearBlocks st \<longrightarrow> st2 = ?st1)"
    proof (cases "m_requestCearBlocks st")
      case True
      with st2 have "clearAllImagePreviewBlocks w (?st1\<lparr>m_requestCearBlocks := False\<rparr>) = Some st2"
        by simp
      from clearAll_result[OF this] True show ?thesis by (auto simp: sameControl_def)
    next
      case False
      with st2 show ?thesis by auto
    qed
    then show "\<not> m_isPreviewing st2" "\<not> m_requestCearBlocks st2"
      "m_requestRefreshBlocks st2 = m_requestRefreshBlocks st" "m_enablePreview st2 = m_enablePreview st"
      "m_requestCearBlocks st \<longrightarrow> (\<forall>j. \<not> isImagePreviewBlock st2 j)"
      "\<not> m_requestCearBlocks st \<longrightarrow> st2 = ?st1" by simp_all
  qed
  have "\<not> m_isPreviewing st3 \<and> \<not> m_requestCearBlocks st3 \<and>
      \<not> m_requestRefreshBlocks st3 \<and> m_enablePreview st3 = m_enablePreview st \<and>
      (m_requestCearBlocks st \<or> m_requestRefreshBlocks st \<longrightarrow> (\<forall>j. \<not> isImagePreviewBlock st3 j)) \<and>
      (\<not> m_requestRefreshBlocks st \<longrightarrow> st3 = st2)"
  proof (cases "m_requestRefreshBlocks st2")
    case True
    have n: "\<not> m_isPreviewing (st2\<lparr>m_requestRefreshBlocks := False\<rparr>)" using c2 by simp
    from st3 True have "refresh w (st2\<lparr>m_requestRefreshBlocks := False\<rparr>) = Some st3" by simp
    from refresh_result[OF n this] True c2 show ?thesis by (auto simp: sameControl_def)
  next
    case False
    with st3 c2 p2 show ?thesis by auto
  qed
  then have c3: "\<not> m_isPreviewing st3" "\<not> m_requestCearBlocks st3"
      "\<not> m_requestRefreshBlocks st3" "m_enablePreview st3 = m_enablePreview st"
    and p3: "m_requestCearBlocks st \<or> m_requestRefreshBlocks st \<longrightarrow> (\<forall>j. \<not> isImagePreviewBlock st3 j)"
    and e3: "\<not> m_requestRefreshBlocks st \<longrightarrow> st3 = st2" by simp_all
  have "blocks st' = blocks st3" by (simp add: st')
  from isImagePreviewBlock_blocks[OF this] p3
  have "m_requestCearBlocks st \<or> m_requestRefreshBlocks st \<longrightarrow> (\<forall>j. \<not> isImagePreviewBlock st' j)"
    by simp
  moreover have "\<not> m_requestCearBlocks st \<and> \<not> m_requestRefreshBlocks st \<longrightarrow>
            st' = st\<lparr>m_isPreviewing := False, statusChanged := Suc (statusChanged st)\<rparr>"
    using e2 e3 by (auto simp: st')
  ultimately show ?thesis using c3 by (simp add: st')
qed

lemma finishPreview_returns:
  assumes "cleanable w st"
  shows "\<exists>st'. finishPreview w st = Some st'"
proof -
  let ?st1 = "st\<lparr>m_isPreviewing := False\<rparr>"
  have "\<exists>st2. (if m_requestCearBlocks ?st1
             then clearAllImagePreviewBlocks w (?st1\<lparr>m_requestCearBlocks := False\<rparr>)
             else Some ?st1) = Some st2 \<and> cleanable w st2"
  proof (cases "m_requestCearBlocks st")
    case True
    let ?s = "?st1\<lparr>m_requestCearBlocks := False\<rparr>"
    have "blocks ?s = blocks st" by simp
    from cleanable_blocks[OF this] assms have "cleanable w ?s" by simp
    moreover have "\<not> m_isPreviewing ?s" by simp
    ultimately obtain st2 where r: "clearAllImagePreviewBlocks w ?s = Some st2"
      using clearAll_returns by blast
    from clearAll_result[OF r] have "cleanable w st2" by (simp add: cleanable_def)
    with r True show ?thesis by simp
  next
    case False
    have "blocks ?st1 = blocks st" by simp
    from cleanable_blocks[OF this] assms False show ?thesis by simp
  qed
  then obtain st2 where st2: "(if m_requestCearBlocks ?st1
             then clearAllImagePreviewBlocks w (?st1\<lparr>m_requestCearBlocks := False\<rparr>)
             else Some ?st1) = Some st2" and cl: "cleanable w st2" by blast
  have "blocks (st2\<lparr>m_requestRefreshBlocks := False\<rparr>) = blocks st2" by simp
  from cleanable_blocks[OF this] cl have "cleanable w (st2\<lparr>m_requestRefreshBlocks := False\<rparr>)" by simp
  from refresh_returns[OF this] have "\<exists>st3. (if m_requestRefreshBlocks st2
             then refresh w (st2\<lparr>m_requestRefreshBlocks := False\<rparr>)
             else Some st2) = Some st3"
    by (cases "m_requestRefreshBlocks st2") auto
  with st2 show ?thesis by (auto simp: finishPreview_def Let_def)
qed

lemma keyEvents_cached:
  "url \<noteq> [] \<Longrightarrow> m_imageCache st url \<noteq> None \<Longrightarrow> keyEvents w url st es = Some st"
proof (induction es)
  case Nil
  then show ?case by simp
next
  case (Cons e es)
  then show ?case
    by (cases e) (auto simp: imageCacheResourceName_def V_ASSERT_def imageDownloaded_def
        split: option.splits)
qed

lemma keyEvents_uncached:
  "url \<noteq> [] \<Longrightarrow> \<not> fileExists w url \<Longrightarrow> m_imageCache st url = None \<Longrightarrow>
   \<exists>st'. keyEvents w url st es = Some st' \<and>
     (case firstDecoded w es of
        None \<Rightarrow> m_imageCache st' = m_imageCache st \<and> resources st' = resources st
      | Some img \<Rightarrow> m_imageCache st' = (m_imageCache st)(url \<mapsto> url) \<and>
                    resources st' = (resources st)(url \<mapsto> img))"
proof (induction es arbitrary: st)
  case Nil
  then show ?case by simp
next
  case (Cons e es)
  show ?case
  proof (cases e)
    case Resolve
    let ?st1 = "st\<lparr>downloads := downloads st @ [url]\<rparr>"
    have r: "imageCacheResourceName w st url = Some (?st1, [])"
      using Cons.prems by (simp add: imageCacheResourceName_def V_ASSERT_def)
    from Cons.prems have "m_imageCache ?st1 url = None" by simp
    from Cons.IH[OF Cons.prems(1,2) this] obtain st' where
      "keyEvents w url ?st1 es = Some st'"
      "case firstDecoded w es of
        None \<Rightarrow> m_imageCache st' = m_imageCache ?st1 \<and> resources st' = resources ?st1
      | Some img \<Rightarrow> m_imageCache st' = (m_imageCache ?st1)(url \<mapsto> url) \<and>
                    resources st' = (resources ?st1)(url \<mapsto> img)" by blast
    with r Resolve show ?thesis by (auto split: option.splits)
  next
    case (Downloaded d)
    show ?thesis
    proof (cases "fromData w d")
      case None
      then have "imageDownloaded w st d url = st" by (simp add: imageDownloaded_def)
      with Cons.IH[of st] Cons.prems Downloaded None show ?thesis by simp
    next
      case (Some img)
      let ?st1 = "imageDownloaded w st d url"
      from Some Cons.prems have c: "m_imageCache ?st1 = (m_imageCache st)(url \<mapsto> url)"
        and r: "resources ?st1 = (resources st)(url \<mapsto> img)"
        by (simp_all add: imageDownloaded_def Let_def imagePathToCacheResourceName_def)
      then have "m_imageCache ?st1 url \<noteq> None" by simp
      from keyEvents_cached[OF Cons.prems(1) this] c r Downloaded Some show ?thesis by simp
    qed
  qed
qed

subsection \<open>The scan brings the document in step, and keeps it there\<close>

lemma isImagePreviewBlock_isPreview:
  "isImagePreviewBlock st i \<longleftrightarrow> i < length (blocks st) \<and> isPreview (blocks st ! i)"
  by (simp add: isImagePreviewBlock_def isPreview_def)

lemma fetchImagePathFromPreviewBlock_storedPath:
  "fetchImagePathFromPreviewBlock st i = storedPath (blocks st ! i)"
  by (simp add: fetchImagePathFromPreviewBlock_def fetchFormatFromPreviewBlock_def storedPath_def
      Let_def split: option.splits)

lemma isValidImagePreviewBlock_iff:
  "isValidImagePreviewBlock w st i \<longleftrightarrow>
     isImagePreviewBlock st i \<and> 0 < i \<and> pathOf w (blocks st ! (i - 1)) \<noteq> [] \<and>
     storedPath (blocks st ! i) = pathOf w (blocks st ! (i - 1))"
  by (auto simp: isValidImagePreviewBlock_def Let_def pathOf_def
      fetchImagePathFromPreviewBlock_storedPath)

lemma fetchImageUrlToPreview_no_bang:
  assumes "0x21 \<notin> set s"
  shows "fetchImageUrlToPreview s = []"
proof -
  have "matchHere (drop i s) = None" for i
  proof (rule ccontr)
    assume "matchHere (drop i s) \<noteq> None"
    then obtain cap where "matchHere (drop i s) = Some cap" by auto
    then obtain alt rest where "drop i s = imageMarkup alt cap @ rest"
      unfolding matchHere_iff by blast
    then have "0x21 \<in> set (drop i s)" by (simp add: imageMarkup_def)
    with assms show False by (meson in_set_dropD)
  qed
  then have "matchPositions s = []" by (simp add: matchPositions_def)
  then show ?thesis by (simp add: fetchImageUrlToPreview_def indexIn_def)
qed

lemma pathOf_isPreview: "isPreview b \<Longrightarrow> pathOf w b = []"
proof -
  assume "isPreview b"
  then obtain l r where t: "blockText b = l @ [ObjectReplacementCharacter] @ r"
    and l: "\<forall>c\<in>set l. isSpace c" and r: "\<forall>c\<in>set r. isSpace c"
    unfolding isPreview_def trimmed_single_iff[OF not_isSpace_ORC] by blast
  have "\<not> isSpace 0x21" by (simp add: isSpace_def)
  with l r have "0x21 \<notin> set (blockText b)"
    by (auto simp: t ObjectReplacementCharacter_def)
  from fetchImageUrlToPreview_no_bang[OF this] show ?thesis
    by (simp add: pathOf_def fetchImagePathToPreview_def)
qed

lemma pathOf_Nil: "pathOf w [] = []"
  by (simp add: pathOf_def fetchImagePathToPreview_def blockText_def fetchImageUrlToPreview_no_bang)

lemma not_isPreview_Nil: "\<not> isPreview []"
  by (simp add: isPreview_def blockText_def trimmed_def)

lemma synchronized_snoc_plain:
  "synchronized w R P \<Longrightarrow> \<not> isPreview b \<Longrightarrow> \<not> corrupted b \<Longrightarrow>
   pathOf w b = [] \<or> \<not> R (pathOf w b) \<Longrightarrow> synchronized w R (P @ [b])"
  by (induction w R P rule: synchronized.induct) auto

lemma synchronized_snoc_pair:
  "synchronized w R P \<Longrightarrow> \<not> isPreview b \<Longrightarrow> \<not> corrupted b \<Longrightarrow> pathOf w b \<noteq> [] \<Longrightarrow>
   isPreview a \<Longrightarrow> storedPath a = pathOf w b \<Longrightarrow> synchronized w R (P @ [b, a])"
  by (induction w R P rule: synchronized.induct) auto

lemma synchronized_snoc_valid:
  "synchronized w R P \<Longrightarrow> P \<noteq> [] \<Longrightarrow> isPreview a \<Longrightarrow> pathOf w (last P) \<noteq> [] \<Longrightarrow>
   storedPath a = pathOf w (last P) \<Longrightarrow> synchronized w R (P @ [a])"
proof (induction w R P rule: synchronized.induct)
  case (1 w R)
  then show ?case by simp
next
  case (2 w R b)
  then show ?case by simp
next
  case (3 w R b a' rest)
  then show ?case
    by (cases "rest = []") (auto simp: pathOf_isPreview)
qed

lemma imageCacheResourceName_cases:
  assumes "imageCacheResourceName w st p = Some (st', n)"
  shows "p \<noteq> [] \<and> blocks st' = blocks st \<and> modified st' = modified st \<and>
         resolves w (m_imageCache st') = resolves w (m_imageCache st) \<and>
         (n \<noteq> [] \<longleftrightarrow> resolves w (m_imageCache st) p) \<and>
         (n = [] \<longrightarrow> m_imageCache st' = m_imageCache st \<and> resources st' = resources st)"
proof -
  from assms have p: "p \<noteq> []"
    by (auto simp: imageCacheResourceName_def V_ASSERT_def split: if_splits Option.bind_splits)
  have r: "resolves w (m_imageCache st') = resolves w (m_imageCache st)"
  proof (rule ext)
    fix q
    from assms p show "resolves w (m_imageCache st') q = resolves w (m_imageCache st) q"
      by (auto simp: imageCacheResourceName_def V_ASSERT_def resolves_def Let_def
          imagePathToCacheResourceName_def split: if_splits option.splits)
  qed
  from assms p have "blocks st' = blocks st \<and> modified st' = modified st \<and>
         (n \<noteq> [] \<longleftrightarrow> resolves w (m_imageCache st) p) \<and>
         (n = [] \<longrightarrow> m_imageCache st' = m_imageCache st \<and> resources st' = resources st)"
    by (auto simp: imageCacheResourceName_def V_ASSERT_def resolves_def Let_def
        imagePathToCacheResourceName_def split: if_splits option.splits)
  with p r show ?thesis by simp
qed

lemma insertImagePreviewBlock_cases:
  assumes "insertImagePreviewBlock w st i p = Some (st', j)" and "i < length (blocks st)"
  shows "resolves w (m_imageCache st') = resolves w (m_imageCache st) \<and> modified st' = modified st \<and>
         (if resolves w (m_imageCache st) p then
            j = Suc i \<and>
            (\<exists>n. blocks st' = take (Suc i) (blocks st) @
                     [(ObjectReplacementCharacter, Some \<lparr>fmtName = n, fmtImagePath = p\<rparr>)] #
                     drop (Suc i) (blocks st))
          else j = i \<and> blocks st' = blocks st \<and> m_imageCache st' = m_imageCache st \<and>
               resources st' = resources st)"
proof -
  from assms(1) obtain st1 n where c: "imageCacheResourceName w st p = Some (st1, n)"
    by (auto simp: insertImagePreviewBlock_def split: Option.bind_splits)
  note f = imageCacheResourceName_cases[OF c]
  show ?thesis
  proof (cases "n = []")
    case True
    with assms(1) c f show ?thesis by (auto simp: insertImagePreviewBlock_def)
  next
    case False
    with assms c f show ?thesis
      by (auto simp: insertImagePreviewBlock_def V_ASSERT_def Let_def edit_defs nth_append
          list_update_append min_def split: if_splits)
  qed
qed

lemma takeWhile_neq_shorter:
  "c \<in> set s \<Longrightarrow> length (takeWhile (\<lambda>x. x \<noteq> c) s) < length s"
  by (induction s) auto

lemma storedPath_setFormat:
  assumes "isPreview b"
  shows "storedPath (b[nat (indexOf (blockText b) ObjectReplacementCharacter) :=
            (fst (b ! nat (indexOf (blockText b) ObjectReplacementCharacter)), Some f)]) = fmtImagePath f \<and>
         blockText (b[nat (indexOf (blockText b) ObjectReplacementCharacter) :=
            (fst (b ! nat (indexOf (blockText b) ObjectReplacementCharacter)), Some f)]) = blockText b"
proof -
  let ?k = "nat (indexOf (blockText b) ObjectReplacementCharacter)"
  from assms obtain l r where t: "blockText b = l @ [ObjectReplacementCharacter] @ r"
    unfolding isPreview_def trimmed_single_iff[OF not_isSpace_ORC] by blast
  then have m: "ObjectReplacementCharacter \<in> set (blockText b)" by simp
  then have k: "?k = length (takeWhile (\<lambda>x. x \<noteq> ObjectReplacementCharacter) (blockText b))"
    by (simp add: indexOf_def)
  have "?k < length (blockText b)"
    unfolding k using m by (rule takeWhile_neq_shorter)
  then have kb: "?k < length b" by (simp add: blockText_def)
  have same: "blockText (b[?k := (fst (b ! ?k), Some f)]) = blockText b"
    using kb by (simp add: blockText_def map_update list_update_same_conv[THEN iffD2])
  have "0 \<le> indexOf (blockText b) ObjectReplacementCharacter" using m by (simp add: indexOf_def)
  then show ?thesis
    using kb by (simp add: storedPath_def same Let_def)
qed

lemma updateImagePreviewBlock_same:
  assumes "isImagePreviewBlock st k" "storedPath (blocks st ! k) = p" "p \<noteq> []"
  shows "updateImagePreviewBlock w st k p = Some st"
proof -
  from assms(2,3) obtain f where "fetchFormatFromPreviewBlock st k = Some f" "fmtImagePath f = p"
    by (auto simp: storedPath_def fetchFormatFromPreviewBlock_def Let_def
        split: if_splits option.splits)
  then show ?thesis
    by (simp add: updateImagePreviewBlock_def V_ASSERT_def)
qed

lemma updateImagePreviewBlock_cases:
  assumes "updateImagePreviewBlock w st k p = Some st'" and "isImagePreviewBlock st k" and "0 < k"
  shows "resolves w (m_imageCache st') = resolves w (m_imageCache st) \<and>
         (if storedPath (blocks st ! k) = p then st' = st
          else if resolves w (m_imageCache st) p then
            (\<exists>b'. blocks st' = (blocks st)[k := b'] \<and> isPreview b' \<and> storedPath b' = p)
          else blocks st' = take k (blocks st) @ drop (Suc k) (blocks st))"
proof -
  from assms(2) have k: "k < length (blocks st)" and pv: "isPreview (blocks st ! k)"
    by (simp_all add: isImagePreviewBlock_isPreview)
  from assms(1) obtain f where f: "fetchFormatFromPreviewBlock st k = Some f"
    by (auto simp: updateImagePreviewBlock_def V_ASSERT_def Let_def
        split: Option.bind_splits if_splits)
  have sp: "storedPath (blocks st ! k) = fmtImagePath f"
    using f fetchImagePathFromPreviewBlock_storedPath[of st k]
    by (simp add: fetchImagePathFromPreviewBlock_def)
  show ?thesis
  proof (cases "fmtImagePath f = p")
    case True
    with assms(1) f sp show ?thesis
      by (simp add: updateImagePreviewBlock_def V_ASSERT_def)
  next
    case False
    with assms(1) f obtain st1 n where c: "imageCacheResourceName w st p = Some (st1, n)"
      and u: "(if n = [] then Some (removeBlock st1 k)
               else updateFormatInPreviewBlock st1 k (f\<lparr>fmtName := n, fmtImagePath := p\<rparr>)) = Some st'"
      by (auto simp: updateImagePreviewBlock_def V_ASSERT_def split: Option.bind_splits)
    note cf = imageCacheResourceName_cases[OF c]
    show ?thesis
    proof (cases "n = []")
      case True
      with u have "st' = removeBlock st1 k" by simp
      moreover from pv have "blocks st ! k \<noteq> []" using not_isPreview_Nil by auto
      ultimately show ?thesis
        using cf True False sp k assms(3) by (simp add: removeBlock_exact)
    next
      case n: False
      let ?b = "blocks st ! k"
      let ?s = "nat (indexOf (blockText ?b) ObjectReplacementCharacter)"
      let ?b' = "?b[?s := (fst (?b ! ?s), Some (f\<lparr>fmtName := n, fmtImagePath := p\<rparr>))]"
      from u n cf have st': "st' = setCharFormat st1 k ?s (f\<lparr>fmtName := n, fmtImagePath := p\<rparr>)"
        by (auto simp: updateFormatInPreviewBlock_def V_ASSERT_def Let_def
            split: Option.bind_splits if_splits)
      then have b: "blocks st' = (blocks st)[k := ?b']" and m: "m_imageCache st' = m_imageCache st1"
        using cf by (simp_all add: edit_defs Let_def)
      from storedPath_setFormat[OF pv, of "f\<lparr>fmtName := n, fmtImagePath := p\<rparr>"]
      have "storedPath ?b' = p" "isPreview ?b'"
        using pv by (simp_all add: isPreview_def)
      with b m cf n False sp show ?thesis by auto
    qed
  qed
qed

lemma clearCorrupted_block:
  assumes "clearCorruptedImagePreviewBlock w st i = Some st1" and "i < length (blocks st)"
    and "\<not> isImagePreviewBlock st i"
  shows "take i (blocks st1) = take i (blocks st) \<and> drop (Suc i) (blocks st1) = drop (Suc i) (blocks st) \<and>
         length (blocks st1) = length (blocks st) \<and>
         m_imageCache st1 = m_imageCache st \<and>
         \<not> isPreview (blocks st1 ! i) \<and> \<not> corrupted (blocks st1 ! i)"
proof (cases "corrupted (blocks st ! i)")
  case False
  with assms show ?thesis
    by (simp add: clearCorrupted_exact isImagePreviewBlock_isPreview)
next
  case True
  let ?b' = "deleteClusters w (blocks st ! i)"
  note cl = clearCorrupted_cleaned[OF assms(1,2) True]
  from cl have st1: "blocks st1 = (blocks st)[i := ?b']" "m_imageCache st1 = m_imageCache st"
    by simp_all
  have "ObjectReplacementCharacter \<notin> set (blockText ?b')" by (simp add: cl(2))
  then have nc: "\<not> corrupted ?b'" by (simp add: corrupted_def)
  from assms(3) clearCorrupted_not_preview[OF assms(1), of i]
  have "\<not> isImagePreviewBlock st1 i" by simp
  with assms(2) st1 have "\<not> isPreview (blocks st1 ! i)"
    by (simp add: isImagePreviewBlock_isPreview)
  with st1 nc assms(2) show ?thesis by simp
qed

lemma previewImageOfOneBlock_invariant:
  assumes step: "previewImageOfOneBlock w st i = Some (st', i')"
    and i: "i < length (blocks st)"
    and np: "\<not> isPreview (blocks st ! i)" and nc: "\<not> corrupted (blocks st ! i)"
    and inv: "synchronized w (resolves w (m_imageCache st)) (take i (blocks st))"
  shows "i' \<le> length (blocks st') \<and>
         synchronized w (resolves w (m_imageCache st')) (take i' (blocks st'))"
proof -
  let ?bs = "blocks st"
  let ?b = "?bs ! i"
  let ?p = "pathOf w ?b"
  let ?R = "resolves w (m_imageCache st)"
  define P where "P = take i ?bs"
  define S where "S = drop (Suc i) ?bs"
  have bs: "?bs = P @ ?b # S" and lP: "length P = i"
    using i by (simp_all add: P_def S_def id_take_nth_drop[symmetric])
  have invP: "synchronized w ?R P" using inv by (simp add: P_def)
  show ?thesis
  proof (cases "?p = []")
    case True
    with step i have r: "st' = st" "i' = Suc i"
      by (auto simp: previewImageOfOneBlock_def Let_def pathOf_def)
    have "take (Suc i) ?bs = P @ [?b]" using i by (simp add: P_def take_Suc_conv_app_nth)
    with synchronized_snoc_plain[OF invP np nc] True r i show ?thesis by simp
  next
    case p: False
    show ?thesis
    proof (cases "isImagePreviewBlock st (Suc i)")
      case True
      then have si: "Suc i < length ?bs" and pa: "isPreview (?bs ! Suc i)"
        by (simp_all add: isImagePreviewBlock_isPreview)
      obtain a S' where S: "S = a # S'" and a: "a = ?bs ! Suc i"
        using si by (cases S) (auto simp: S_def simp flip: Cons_nth_drop_Suc)
      from step i p True obtain st1 where
        u: "updateImagePreviewBlock w st (Suc i) ?p = Some st1"
        and r: "st' = st1" "i' = handleAfter st st1 (Suc (Suc i))"
        by (auto simp: previewImageOfOneBlock_def Let_def pathOf_def split: Option.bind_splits)
      note uc = updateImagePreviewBlock_cases[OF u True, simplified]
      then have R: "resolves w (m_imageCache st') = ?R" using r by simp
      show ?thesis
      proof (cases "storedPath a = ?p")
        case True
        with uc a r have "st' = st" "i' = Suc (Suc i)" by (simp_all add: handleAfter_def)
        moreover have "take (Suc (Suc i)) ?bs = P @ [?b, a]"
          by (subst bs) (simp add: lP S)
        ultimately show ?thesis
          using synchronized_snoc_pair[OF invP np nc p] pa a True si by simp
      next
        case sp: False
        show ?thesis
        proof (cases "?R ?p")
          case True
          with uc sp a r obtain b' where b': "blocks st' = ?bs[Suc i := b']" "isPreview b'"
            "storedPath b' = ?p" by auto
          then have "blocks st' = P @ ?b # b' # S'"
            by (subst (asm) bs) (simp add: lP S list_update_append)
          then have "take (Suc (Suc i)) (blocks st') = P @ [?b, b']" "Suc (Suc i) \<le> length (blocks st')"
            by (simp_all add: lP)
          moreover have "i' = Suc (Suc i)" using r b' by (simp add: handleAfter_def)
          ultimately show ?thesis
            using synchronized_snoc_pair[OF invP np nc p b'(2,3)] R by simp
        next
          case False
          with uc sp a r have "blocks st' = take (Suc i) ?bs @ drop (Suc (Suc i)) ?bs" by simp
          then have b: "blocks st' = P @ ?b # S'"
            by (subst (asm) (1 2) bs) (simp add: lP S)
          then have "take (Suc i) (blocks st') = P @ [?b]" "Suc i \<le> length (blocks st')"
            by (simp_all add: lP)
          moreover have "length ?bs = Suc (Suc (i + length S'))"
            by (subst bs) (simp add: lP S)
          then have "i' = Suc i" using r b lP by (simp add: handleAfter_def)
          ultimately show ?thesis
            using synchronized_snoc_plain[OF invP np nc] False R by simp
        qed
      qed
    next
      case False
      with step i p obtain j where
        u: "insertImagePreviewBlock w st i ?p = Some (st', j)" and r: "i' = Suc j"
        by (auto simp: previewImageOfOneBlock_def Let_def pathOf_def split: Option.bind_splits)
      note ic = insertImagePreviewBlock_cases[OF u i]
      then have R: "resolves w (m_imageCache st') = ?R" by simp
      show ?thesis
      proof (cases "?R ?p")
        case True
        with ic obtain n where j: "j = Suc i" and
          b: "blocks st' = take (Suc i) ?bs @
                [(ObjectReplacementCharacter, Some \<lparr>fmtName = n, fmtImagePath = ?p\<rparr>)] # drop (Suc i) ?bs"
          by auto
        let ?a = "[(ObjectReplacementCharacter, Some \<lparr>fmtName = n, fmtImagePath = ?p\<rparr>)]"
        have pa: "isPreview ?a" "storedPath ?a = ?p"
          by (simp_all add: isPreview_def storedPath_def blockText_def trimmed_def indexOf_def
              not_isSpace_ORC)
        from b have "blocks st' = P @ ?b # ?a # S"
          by (subst (asm) (1 2) bs) (simp add: lP)
        then have "take (Suc (Suc i)) (blocks st') = P @ [?b, ?a]" "Suc (Suc i) \<le> length (blocks st')"
          by (simp_all add: lP)
        then show ?thesis
          using synchronized_snoc_pair[OF invP np nc p pa] R r j by simp
      next
        case nr: False
        with ic have j: "j = i" and b: "blocks st' = ?bs" by auto
        have "take (Suc i) ?bs = P @ [?b]" using i by (simp add: P_def take_Suc_conv_app_nth)
        then show ?thesis
          using synchronized_snoc_plain[OF invP np nc] nr R r j b i by simp
      qed
    qed
  qed
qed

lemma last_take_nth: "0 < i \<Longrightarrow> i \<le> length xs \<Longrightarrow> last (take i xs) = xs ! (i - 1)"
  by (cases i) (simp_all add: take_Suc_conv_app_nth)

lemma previewStep_invariant:
  assumes step: "previewStep w st i = Some (st', i')"
    and i: "i < length (blocks st)"
    and inv: "synchronized w (resolves w (m_imageCache st)) (take i (blocks st))"
  shows "i' \<le> length (blocks st') \<and>
         synchronized w (resolves w (m_imageCache st')) (take i' (blocks st'))"
proof (cases "isImagePreviewBlock st i")
  case True
  then have pv: "isPreview (blocks st ! i)" by (simp add: isImagePreviewBlock_isPreview)
  show ?thesis
  proof (cases "isValidImagePreviewBlock w st i")
    case valid: True
    with step True have r: "st' = st" "i' = Suc i" by (simp_all add: previewStep_def)
    from valid have pos: "0 < i" and p: "pathOf w (blocks st ! (i - 1)) \<noteq> []"
      and s: "storedPath (blocks st ! i) = pathOf w (blocks st ! (i - 1))"
      by (simp_all add: isValidImagePreviewBlock_iff)
    from pos i have ne: "take i (blocks st) \<noteq> []" by auto
    have l: "last (take i (blocks st)) = blocks st ! (i - 1)"
      using pos i by (simp add: last_take_nth)
    have "take (Suc i) (blocks st) = take i (blocks st) @ [blocks st ! i]"
      using i by (simp add: take_Suc_conv_app_nth)
    with synchronized_snoc_valid[OF inv ne pv] l p s r i show ?thesis by simp
  next
    case False
    with step True have r: "st' = removeBlock st i" "i' = handleAfter st (removeBlock st i) (Suc i)"
      by (auto simp add: previewStep_def Let_def)
    have m: "m_imageCache st' = m_imageCache st" using r
      by (simp add: removeBlock_exact)
    from pv have ne: "blocks st ! i \<noteq> []" using not_isPreview_Nil by auto
    show ?thesis
    proof (cases "i = 0")
      case True
      with ne i r have b: "blocks st' = (blocks st)[0 := []]" by (simp add: removeBlock_exact)
      with r True have "i' = Suc 0" by (simp add: handleAfter_def)
      moreover from b i True have "take (Suc 0) (blocks st') = [[]]"
        by (cases "blocks st") simp_all
      moreover have "synchronized w (resolves w (m_imageCache st')) [[]]"
        by (simp add: not_isPreview_Nil not_corrupted_Nil pathOf_Nil)
      ultimately show ?thesis using b i by simp
    next
      case pos: False
      with ne i r have b: "blocks st' = take i (blocks st) @ drop (Suc i) (blocks st)"
        by (simp add: removeBlock_exact)
      with r i pos have "i' = i" by (simp add: handleAfter_def)
      with b i inv m show ?thesis by simp
    qed
  qed
next
  case False
  with step obtain st1 where c: "clearCorruptedImagePreviewBlock w st i = Some st1"
    and p: "previewImageOfOneBlock w st1 i = Some (st', i')"
    by (auto simp: previewStep_def split: Option.bind_splits)
  note cb = clearCorrupted_block[OF c i False]
  from cb i inv have "i < length (blocks st1)" "\<not> isPreview (blocks st1 ! i)"
    "\<not> corrupted (blocks st1 ! i)"
    "synchronized w (resolves w (m_imageCache st1)) (take i (blocks st1))"
    by simp_all
  from previewImageOfOneBlock_invariant[OF p this] show ?thesis .
qed

lemma previewLoop_synchronizes:
  "previewLoop w st i = Some st' \<Longrightarrow> m_enablePreview st \<Longrightarrow> i \<le> length (blocks st) \<Longrightarrow>
   synchronized w (resolves w (m_imageCache st)) (take i (blocks st)) \<Longrightarrow>
   synchronized w (resolves w (m_imageCache st')) (blocks st')"
proof (induction w st i rule: previewLoop.induct)
  case (1 w st b)
  show ?case
  proof (cases "b < length (blocks st)")
    case False
    with "1.prems" show ?thesis
      by (subst (asm) previewLoop.simps) simp
  next
    case True
    with "1.prems" obtain st1 nb where
      s: "previewStep w st b = Some (st1, nb)" and l: "previewLoop w st1 nb = Some st'"
      by (subst (asm) previewLoop.simps) (auto split: option.splits)
    from sameControl_previewStep[OF s] "1.prems"(2) have e: "m_enablePreview st1"
      by (simp add: sameControl_def)
    from previewStep_invariant[OF s True "1.prems"(4)]
    have "nb \<le> length (blocks st1)"
      "synchronized w (resolves w (m_imageCache st1)) (take nb (blocks st1))" by simp_all
    with "1.IH"[OF _ s refl l e] True "1.prems"(2) show ?thesis by simp
  qed
qed

text \<open>A synchronized document is left alone by the loop.\<close>

lemma previewStep_stable:
  assumes i: "i < length (blocks st)"
    and sync: "synchronized w (resolves w (m_imageCache st)) (drop i (blocks st))"
  shows "\<exists>st' i'. previewStep w st i = Some (st', i') \<and> blocks st' = blocks st \<and>
           m_imageCache st' = m_imageCache st \<and> resources st' = resources st \<and>
           modified st' = modified st \<and>
           synchronized w (resolves w (m_imageCache st')) (drop i' (blocks st'))"
proof -
  let ?bs = "blocks st"
  let ?b = "?bs ! i"
  let ?p = "pathOf w ?b"
  let ?R = "resolves w (m_imageCache st)"
  have d: "drop i ?bs = ?b # drop (Suc i) ?bs" using i by (simp add: Cons_nth_drop_Suc)
  from sync have np: "\<not> isPreview ?b" and nc: "\<not> corrupted ?b"
    unfolding d by (cases "drop (Suc i) ?bs"; simp)+
  from np i have nip: "\<not> isImagePreviewBlock st i" by (simp add: isImagePreviewBlock_isPreview)
  have cc: "clearCorruptedImagePreviewBlock w st i = Some st" using nc by (simp add: clearCorrupted_exact)
  have ps: "previewStep w st i = previewImageOfOneBlock w st i"
    using nip cc by (simp add: previewStep_def)
  have failing: "\<exists>st'. previewImageOfOneBlock w st i = Some (st', Suc i) \<and> blocks st' = ?bs \<and>
           m_imageCache st' = m_imageCache st \<and> resources st' = resources st \<and>
           modified st' = modified st"
    if "?p = [] \<or> \<not> ?R ?p" "\<not> isImagePreviewBlock st (Suc i)"
  proof (cases "?p = []")
    case True
    with i show ?thesis by (simp add: previewImageOfOneBlock_def Let_def pathOf_def)
  next
    case False
    with that have nr: "\<not> ?R ?p" by simp
    have "imageCacheResourceName w st ?p \<noteq> None"
      using False by (simp add: imageCacheResourceName_def V_ASSERT_def Let_def split: option.splits)
    then obtain st1 n where c: "imageCacheResourceName w st ?p = Some (st1, n)" by auto
    from imageCacheResourceName_cases[OF c] nr
    have "n = []" "blocks st1 = ?bs" "m_imageCache st1 = m_imageCache st" "resources st1 = resources st"
      "modified st1 = modified st" by auto
    with c i False that(2) show ?thesis
      by (simp add: previewImageOfOneBlock_def Let_def pathOf_def insertImagePreviewBlock_def)
  qed
  show ?thesis
  proof (cases "drop (Suc i) ?bs")
    case Nil
    then have "\<not> isImagePreviewBlock st (Suc i)" by (simp add: isImagePreviewBlock_def)
    moreover from sync Nil have "?p = [] \<or> \<not> ?R ?p" unfolding d by simp
    ultimately obtain st' where "previewImageOfOneBlock w st i = Some (st', Suc i)" "blocks st' = ?bs"
      "m_imageCache st' = m_imageCache st" "resources st' = resources st" "modified st' = modified st"
      using failing by blast
    with Nil ps show ?thesis by simp
  next
    case (Cons a rest)
    then have si: "Suc i < length ?bs" by (metis drop_eq_Nil2 list.distinct(1) not_le)
    with Cons have a: "a = ?bs ! Suc i" and rest: "rest = drop (Suc (Suc i)) ?bs"
      by (simp_all flip: Cons_nth_drop_Suc)
    show ?thesis
    proof (cases "isPreview a")
      case True
      with sync Cons have p: "?p \<noteq> []" and s: "storedPath a = ?p"
        and sr: "synchronized w ?R rest" unfolding d by simp_all
      from True a si have ip: "isImagePreviewBlock st (Suc i)" by (simp add: isImagePreviewBlock_isPreview)
      from updateImagePreviewBlock_same[OF ip _ p] s a
      have "updateImagePreviewBlock w st (Suc i) ?p = Some st" by simp
      with i p ip have "previewImageOfOneBlock w st i = Some (st, Suc (Suc i))"
        by (simp add: previewImageOfOneBlock_def Let_def pathOf_def handleAfter_def)
      with ps sr rest show ?thesis by simp
    next
      case False
      with sync Cons have f: "?p = [] \<or> \<not> ?R ?p" and sr: "synchronized w ?R (a # rest)"
        unfolding d by simp_all
      from False a have "\<not> isImagePreviewBlock st (Suc i)" by (simp add: isImagePreviewBlock_isPreview)
      with f obtain st' where "previewImageOfOneBlock w st i = Some (st', Suc i)" "blocks st' = ?bs"
        "m_imageCache st' = m_imageCache st" "resources st' = resources st" "modified st' = modified st"
        using failing by blast
      with Cons ps sr show ?thesis by simp
    qed
  qed
qed

lemma previewLoop_stable:
  "synchronized w (resolves w (m_imageCache st)) (drop i (blocks st)) \<Longrightarrow>
   \<exists>st'. previewLoop w st i = Some st' \<and> blocks st' = blocks st \<and>
         m_imageCache st' = m_imageCache st \<and> resources st' = resources st \<and>
         modified st' = modified st"
proof (induction w st i rule: previewLoop.induct)
  case (1 w st b)
  show ?case
  proof (cases "b < length (blocks st) \<and> m_enablePreview st")
    case False
    then show ?thesis by (subst previewLoop.simps) auto
  next
    case True
    from previewStep_stable[OF _ "1.prems"] True obtain st1 nb where
      s: "previewStep w st b = Some (st1, nb)" and e: "blocks st1 = blocks st"
      "m_imageCache st1 = m_imageCache st" "resources st1 = resources st" "modified st1 = modified st"
      and sy: "synchronized w (resolves w (m_imageCache st1)) (drop nb (blocks st1))"
      by blast
    from "1.IH"[OF True s refl sy] e s True show ?thesis
      by (subst previewLoop.simps) auto
  qed
qed

lemma synchronized_nth:
  "synchronized w R bs \<Longrightarrow> i < length bs \<Longrightarrow>
     (if isPreview (bs ! i)
      then 0 < i \<and> pathOf w (bs ! (i - 1)) \<noteq> [] \<and> storedPath (bs ! i) = pathOf w (bs ! (i - 1))
      else \<not> corrupted (bs ! i) \<and>
           (pathOf w (bs ! i) \<noteq> [] \<and> R (pathOf w (bs ! i)) \<longrightarrow>
              Suc i < length bs \<and> isPreview (bs ! Suc i) \<and> storedPath (bs ! Suc i) = pathOf w (bs ! i)))"
proof (induction w R bs arbitrary: i rule: synchronized.induct)
  case (1 w R)
  then show ?case by simp
next
  case (2 w R b)
  then show ?case by auto
next
  case (3 w R b a rest)
  show ?case
  proof (cases "isPreview a")
    case True
    with "3.prems" have b: "\<not> isPreview b" "\<not> corrupted b" "pathOf w b \<noteq> []" "storedPath a = pathOf w b"
      and r: "synchronized w R rest" by simp_all
    show ?thesis
    proof (cases i)
      case 0
      with b True show ?thesis by simp
    next
      case (Suc j)
      show ?thesis
      proof (cases j)
        case 0
        with Suc b True show ?thesis by simp
      next
        case (Suc k)
        with \<open>i = Suc j\<close> "3.prems" have k: "k < length rest" by simp
        from "3.IH"(1)[OF True r k] \<open>i = Suc j\<close> Suc show ?thesis
          by (cases k) (auto split: if_splits)
      qed
    qed
  next
    case False
    with "3.prems" have b: "\<not> isPreview b" "\<not> corrupted b" "pathOf w b = [] \<or> \<not> R (pathOf w b)"
      and r: "synchronized w R (a # rest)" by simp_all
    show ?thesis
    proof (cases i)
      case 0
      with b show ?thesis by auto
    next
      case (Suc j)
      with "3.prems" have j: "j < length (a # rest)" by simp
      from "3.IH"(2)[OF False r j] Suc False show ?thesis
        by (cases j) (auto split: if_splits)
    qed
  qed
qed

lemma resolves_imageCacheResourceName:
  "p \<noteq> [] \<Longrightarrow>
   resolves w (m_imageCache st) p \<longleftrightarrow>
     (\<exists>st1 n. imageCacheResourceName w st p = Some (st1, n) \<and> n \<noteq> [])"
  by (auto simp: imageCacheResourceName_def V_ASSERT_def resolves_def Let_def
      imagePathToCacheResourceName_def split: option.splits)

lemma previewImages_unlatched:
  assumes "\<not> m_isPreviewing st" "\<not> m_requestCearBlocks st" "\<not> m_requestRefreshBlocks st"
  shows "previewImages w st = Some st' \<longleftrightarrow>
     (\<exists>s1. previewLoop w (st\<lparr>m_isPreviewing := True\<rparr>) 0 = Some s1 \<and>
           st' = s1\<lparr>m_isPreviewing := False, statusChanged := Suc (statusChanged s1)\<rparr>)"
proof -
  have fin: "finishPreview w s1 = Some (s1\<lparr>m_isPreviewing := False, statusChanged := Suc (statusChanged s1)\<rparr>)"
    if "previewLoop w (st\<lparr>m_isPreviewing := True\<rparr>) 0 = Some s1" for s1
  proof -
    from sameControl_previewLoop[OF that] assms
    have "\<not> m_requestCearBlocks s1" "\<not> m_requestRefreshBlocks s1"
      by (simp_all add: sameControl_def)
    then show ?thesis by (simp add: finishPreview_def)
  qed
  show ?thesis
    using assms fin
    by (auto simp: previewImages_def previewImagesFrom_def split: Option.bind_splits)
qed

lemma latchedOnlyWhileScanning_kept:
  assumes "latchedOnlyWhileScanning st"
  shows "latchedOnlyWhileScanning (enableImagePreview w st)"
    and "latchedOnlyWhileScanning (imageDownloaded w st p_data p_url)"
    and "latchedOnlyWhileScanning (handleContentChange st p_position p_charsRemoved p_charsAdded)"
    and "disableImagePreview w st = Some st' \<Longrightarrow> latchedOnlyWhileScanning st'"
    and "refresh w st = Some st' \<Longrightarrow> latchedOnlyWhileScanning st'"
    and "previewImages w st = Some st' \<Longrightarrow> latchedOnlyWhileScanning st'"
    and "timerTimeout w st = Some st' \<Longrightarrow> latchedOnlyWhileScanning st'"
proof -
  show "latchedOnlyWhileScanning (enableImagePreview w st)"
    using assms by (simp add: latchedOnlyWhileScanning_def enableImagePreview_def Let_def)
  show "latchedOnlyWhileScanning (imageDownloaded w st p_data p_url)"
    using assms by (simp add: latchedOnlyWhileScanning_def imageDownloaded_def Let_def
        split: option.splits)
  show "latchedOnlyWhileScanning (handleContentChange st p_position p_charsRemoved p_charsAdded)"
    using assms by (simp add: latchedOnlyWhileScanning_def handleContentChange_def)
  have disable: "latchedOnlyWhileScanning s'"
    if "latchedOnlyWhileScanning s" "disableImagePreview w s = Some s'" for s s'
  proof (cases "m_isPreviewing s")
    case True
    with that show ?thesis
      by (auto simp: disableImagePreview_def Let_def latchedOnlyWhileScanning_def)
  next
    case False
    with that(2) have "clearAllImagePreviewBlocks w (s\<lparr>m_enablePreview := False\<rparr>) = Some s'"
      by (simp add: disableImagePreview_def Let_def)
    from clearAll_result[OF this] that(1) False show ?thesis
      by (auto simp: sameControl_def latchedOnlyWhileScanning_def)
  qed
  have images: "latchedOnlyWhileScanning s'"
    if "latchedOnlyWhileScanning s" "previewImages w s = Some s'" for s s'
  proof (cases "m_isPreviewing s")
    case True
    with that show ?thesis by (simp add: previewImages_def)
  next
    case False
    with that(2) obtain s1 where "finishPreview w s1 = Some s'"
      by (auto simp: previewImages_def previewImagesFrom_def split: Option.bind_splits)
    from finishPreview_result[OF this] show ?thesis
      by (auto simp: latchedOnlyWhileScanning_def)
  qed
  show "disableImagePreview w st = Some st' \<Longrightarrow> latchedOnlyWhileScanning st'"
    using disable[OF assms] .
  show "previewImages w st = Some st' \<Longrightarrow> latchedOnlyWhileScanning st'"
    using images[OF assms] .
  show "refresh w st = Some st' \<Longrightarrow> latchedOnlyWhileScanning st'"
  proof (cases "m_isPreviewing st")
    case True
    assume "refresh w st = Some st'"
    with True show ?thesis by (auto simp: refresh_def latchedOnlyWhileScanning_def)
  next
    case False
    assume "refresh w st = Some st'"
    from refresh_result[OF False this] assms False show ?thesis
      by (auto simp: sameControl_def latchedOnlyWhileScanning_def)
  qed
  show "timerTimeout w st = Some st' \<Longrightarrow> latchedOnlyWhileScanning st'"
  proof -
    assume t: "timerTimeout w st = Some st'"
    have l: "latchedOnlyWhileScanning (st\<lparr>timerActive := False\<rparr>)"
      using assms by (simp add: latchedOnlyWhileScanning_def)
    from t disable[OF l, of st'] images[OF l, of st'] l show ?thesis
      by (auto simp: timerTimeout_def Let_def split: if_splits)
  qed
qed

text \<open>A scan of a one-line document whose image is a local file that decodes.\<close>

lemma example_scan_blocks:
  "map_option blocks (previewImages exampleWorld (exampleState [plain ''![x](a.png)''])) =
     Some [plain ''![x](a.png)'', previewOf ''/n/a.png'']"
  by code_simp

section \<open>The claims\<close>

subsection \<open>Corruption cleanup\<close>

text \<open>
  Claim C8 fails where a placeholder character is followed by a character that extends
  it. \<^verbatim>\<open>clearCorruptedImagePreviewBlock\<close> removes every placeholder with
  \<^verbatim>\<open>QTextCursor::deleteChar\<close>, which deletes a whole grapheme cluster. In the block
  \<^verbatim>\<open>a\<close>, placeholder, U+0301 (combining acute accent), \<^verbatim>\<open>b\<close> the deletion at the
  placeholder takes the accent with it and leaves \<^verbatim>\<open>ab\<close>, where the claim, the comment
  in the source (\<^verbatim>\<open>Just remove the char\<close>) and the assertion that ends the function
  all ask for the text without its placeholders, \<^verbatim>\<open>a\<close>, U+0301, \<^verbatim>\<open>b\<close>. The assertion
  fails and the function does not return. In the block \<^verbatim>\<open>abc\<close>, placeholder, \<^verbatim>\<open>def\<close>
  of the specification the placeholder is a cluster of its own and the cleanup leaves
  \<^verbatim>\<open>abcdef\<close>.
\<close>

theorem cleanup_deletes_whole_cluster:
  "corrupted (plain ''a'' @ [(ObjectReplacementCharacter, None), (0x0301, None)] @ plain ''b'') \<and>
   blocks (deleteChar exampleWorld
             (exampleState [plain ''a'' @ [(ObjectReplacementCharacter, None), (0x0301, None)] @ plain ''b''])
             0 1) = [plain ''ab''] \<and>
   clearCorruptedImagePreviewBlock exampleWorld
     (exampleState [plain ''a'' @ [(ObjectReplacementCharacter, None), (0x0301, None)] @ plain ''b'']) 0 =
     None \<and>
   map_option blocks
     (clearCorruptedImagePreviewBlock exampleWorld
        (exampleState [plain ''abc'' @ [(ObjectReplacementCharacter, None)] @ plain ''def'']) 0) =
     Some [plain ''abcdef'']"
  by code_simp

subsection \<open>Classification of blocks\<close>

text \<open>
  Claim C10. \<^verbatim>\<open>isImagePreviewBlock\<close> holds of a valid block exactly when its trimmed text
  is the single placeholder character, that is when the text is one placeholder between
  two runs of spaces. Such a block is never treated as corrupted: the cleanup leaves it
  alone and the scan only checks whether it is parentless (and removes it if so). A
  block with two or more placeholders, or with a character that is neither a placeholder
  nor a space, is no image preview block.
\<close>

theorem artifact_block_classification:
  "(isImagePreviewBlock st i \<longleftrightarrow>
      i < length (blocks st) \<and> trimmed (blockText (blocks st ! i)) = [ObjectReplacementCharacter]) \<and>
   (isImagePreviewBlock st i \<longleftrightarrow>
      i < length (blocks st) \<and>
      (\<exists>l r. blockText (blocks st ! i) = l @ [ObjectReplacementCharacter] @ r \<and>
             (\<forall>c\<in>set l. isSpace c) \<and> (\<forall>c\<in>set r. isSpace c))) \<and>
   (isImagePreviewBlock st i \<longrightarrow>
      clearCorruptedImagePreviewBlock w st i = Some st \<and>
      previewStep w st i =
        Some (if isValidImagePreviewBlock w st i then (st, Suc i)
              else (removeBlock st i, handleAfter st (removeBlock st i) (Suc i)))) \<and>
   (2 \<le> count_list (blockText (blocks st ! i)) ObjectReplacementCharacter \<longrightarrow>
      \<not> isImagePreviewBlock st i) \<and>
   ((\<exists>c\<in>set (blockText (blocks st ! i)). c \<noteq> ObjectReplacementCharacter \<and> \<not> isSpace c) \<longrightarrow>
      \<not> isImagePreviewBlock st i)"
proof (intro conjI impI)
  show "isImagePreviewBlock st i \<longleftrightarrow>
      i < length (blocks st) \<and> trimmed (blockText (blocks st ! i)) = [ObjectReplacementCharacter]"
    by (simp add: isImagePreviewBlock_def)
  show "isImagePreviewBlock st i \<longleftrightarrow>
      i < length (blocks st) \<and>
      (\<exists>l r. blockText (blocks st ! i) = l @ [ObjectReplacementCharacter] @ r \<and>
             (\<forall>c\<in>set l. isSpace c) \<and> (\<forall>c\<in>set r. isSpace c))"
    by (rule isImagePreviewBlock_split)
next
  assume p: "isImagePreviewBlock st i"
  then have "i < length (blocks st)" by (simp add: isImagePreviewBlock_def split: if_splits)
  with previewBlock_onlySpaces[OF p] show "clearCorruptedImagePreviewBlock w st i = Some st"
    by (auto simp add: clearCorruptedImagePreviewBlock_def scanReplacementChars_eq Let_def)
  from p show "previewStep w st i =
        Some (if isValidImagePreviewBlock w st i then (st, Suc i)
              else (removeBlock st i, handleAfter st (removeBlock st i) (Suc i)))"
    by (simp add: previewStep_def Let_def)
next
  assume "2 \<le> count_list (blockText (blocks st ! i)) ObjectReplacementCharacter"
  then show "\<not> isImagePreviewBlock st i"
    using previewBlock_count[of st i] by auto
next
  assume "\<exists>c\<in>set (blockText (blocks st ! i)). c \<noteq> ObjectReplacementCharacter \<and> \<not> isSpace c"
  then show "\<not> isImagePreviewBlock st i"
    using previewBlock_onlySpaces[of st i] by blast
qed

theorem artifact_block_classification_witness:
  "isImagePreviewBlock
      (exampleState [plain '' '' @ [(ObjectReplacementCharacter, None)] @ plain ''  '']) 0 \<and>
   clearCorruptedImagePreviewBlock exampleWorld
      (exampleState [plain '' '' @ [(ObjectReplacementCharacter, None)] @ plain ''  '']) 0 =
     Some (exampleState [plain '' '' @ [(ObjectReplacementCharacter, None)] @ plain ''  '']) \<and>
   \<not> isImagePreviewBlock
      (exampleState [[(ObjectReplacementCharacter, None), (ObjectReplacementCharacter, None)]]) 0 \<and>
   \<not> isImagePreviewBlock
      (exampleState [plain ''a'' @ [(ObjectReplacementCharacter, None)]]) 0"
  using artifact_block_classification
          [of "exampleState [plain '' '' @ [(ObjectReplacementCharacter, None)] @ plain ''  '']" 0]
        artifact_block_classification
          [of "exampleState [[(ObjectReplacementCharacter, None), (ObjectReplacementCharacter, None)]]" 0]
        artifact_block_classification
          [of "exampleState [plain ''a'' @ [(ObjectReplacementCharacter, None)]]" 0]
  by (simp add: exampleState_def plain_def blockText_def ObjectReplacementCharacter_def isSpace_def
      trimmed_def)

subsection \<open>The one-reference rule\<close>

text \<open>
  Claim C3. \<^verbatim>\<open>fetchImageUrlToPreview\<close> returns the reference of the markup when the line
  holds exactly one occurrence of \<^verbatim>\<open>![...](ref)\<close>, and that reference is not empty; with
  no occurrence, or with two or more, it returns the empty string, and then
  \<^verbatim>\<open>previewImageOfOneBlock\<close> changes nothing for a block with that text: no preview
  block is inserted or updated, the scan goes on with the next block.
\<close>

theorem one_reference_rule:
  "fetchImageUrlToPreview s =
     (case occurrences s of [(i, a, r)] \<Rightarrow> take r (drop (i + a + 4) s) | _ \<Rightarrow> []) \<and>
   (length (occurrences s) = 1 \<longrightarrow> fetchImageUrlToPreview s \<noteq> []) \<and>
   (length (occurrences s) \<noteq> 1 \<longrightarrow>
      fetchImageUrlToPreview s = [] \<and>
      (k < length (blocks st) \<and> blockText (blocks st ! k) = s \<longrightarrow>
         previewImageOfOneBlock w st k = Some (st, Suc k)))"
proof (intro conjI impI)
  show "fetchImageUrlToPreview s =
     (case occurrences s of [(i, a, r)] \<Rightarrow> take r (drop (i + a + 4) s) | _ \<Rightarrow> [])"
    by (rule fetchImageUrlToPreview_occurrences)
next
  assume "length (occurrences s) = 1"
  then obtain x where x: "occurrences s = [x]"
    by (cases "occurrences s") auto
  obtain i a r where iar: "x = (i, a, r)" by (cases x) auto
  from x have "x \<in> set (occurrences s)" by simp
  then have "occurrence s (i, a, r)" by (simp add: occurrences_def iar)
  from occurrence_ref_nonempty[OF this] show "fetchImageUrlToPreview s \<noteq> []"
    by (simp add: fetchImageUrlToPreview_occurrences x iar)
next
  assume n: "length (occurrences s) \<noteq> 1"
  then show e: "fetchImageUrlToPreview s = []"
    by (auto simp add: fetchImageUrlToPreview_occurrences split: list.splits)
  assume "k < length (blocks st) \<and> blockText (blocks st ! k) = s"
  with e show "previewImageOfOneBlock w st k = Some (st, Suc k)"
    by (simp add: previewImageOfOneBlock_def fetchImagePathToPreview_def Let_def)
qed

theorem one_reference_rule_witness:
  "fetchImageUrlToPreview (fromLatin1 ''![a](b)'') = fromLatin1 ''b'' \<and>
   fetchImageUrlToPreview (fromLatin1 ''![![](a)'') = [] \<and>
   previewImageOfOneBlock exampleWorld (exampleState [plain ''![![](a)'']) 0 =
     Some (exampleState [plain ''![![](a)''], 1)"
proof -
  from one_reference_rule[of "fromLatin1 ''![a](b)''"]
  have "fetchImageUrlToPreview (fromLatin1 ''![a](b)'') = take 1 (drop 5 (fromLatin1 ''![a](b)''))"
    by (simp add: occurrences_example_one)
  then have one: "fetchImageUrlToPreview (fromLatin1 ''![a](b)'') = fromLatin1 ''b''"
    by (simp add: fromLatin1_def)
  from one_reference_rule[of "fromLatin1 ''![![](a)''" 0 "exampleState [plain ''![![](a)'']" exampleWorld]
  have "fetchImageUrlToPreview (fromLatin1 ''![![](a)'') = [] \<and>
        previewImageOfOneBlock exampleWorld (exampleState [plain ''![![](a)'']) 0 =
          Some (exampleState [plain ''![![](a)''], 1)"
    by (simp add: occurrences_example_two exampleState_def blockText_plain)
  with one show ?thesis by simp
qed

subsection \<open>Disabling while a scan is active\<close>

text \<open>
  Claim C4, as stated, fails in one point: the scan that is under way does not run to
  completion. Here a scan is active with its loop at the first of two blocks when
  \<^verbatim>\<open>disableImagePreview\<close> runs. The loop then ends at once; the scan returns without
  a preview block for the first block and without the download request for the second,
  both of which the same scan makes when it is not disabled.
\<close>

theorem disabled_scan_skips_remaining_blocks:
  "disableImagePreview exampleWorld
     ((exampleState [plain ''![x](a.png)'', plain ''![y](http://r/i.png)''])\<lparr>m_isPreviewing := True\<rparr>) =
     Some ((exampleState [plain ''![x](a.png)'', plain ''![y](http://r/i.png)''])
             \<lparr>m_isPreviewing := True, m_enablePreview := False, m_requestCearBlocks := True\<rparr>) \<and>
   map_option blocks
     (previewImagesFrom exampleWorld
        ((exampleState [plain ''![x](a.png)'', plain ''![y](http://r/i.png)''])
           \<lparr>m_isPreviewing := True, m_enablePreview := False, m_requestCearBlocks := True\<rparr>) 0) =
     Some [plain ''![x](a.png)'', plain ''![y](http://r/i.png)''] \<and>
   map_option downloads
     (previewImagesFrom exampleWorld
        ((exampleState [plain ''![x](a.png)'', plain ''![y](http://r/i.png)''])
           \<lparr>m_isPreviewing := True, m_enablePreview := False, m_requestCearBlocks := True\<rparr>) 0) =
     Some [] \<and>
   map_option blocks
     (previewLoop exampleWorld
        ((exampleState [plain ''![x](a.png)'', plain ''![y](http://r/i.png)''])\<lparr>m_isPreviewing := True\<rparr>) 0) =
     Some [plain ''![x](a.png)'', previewOf ''/n/a.png'', plain ''![y](http://r/i.png)''] \<and>
   map_option downloads
     (previewLoop exampleWorld
        ((exampleState [plain ''![x](a.png)'', plain ''![y](http://r/i.png)''])\<lparr>m_isPreviewing := True\<rparr>) 0) =
     Some [fromLatin1 ''http://r/i.png'']"
proof (intro conjI)
  show "disableImagePreview exampleWorld
     ((exampleState [plain ''![x](a.png)'', plain ''![y](http://r/i.png)''])\<lparr>m_isPreviewing := True\<rparr>) =
     Some ((exampleState [plain ''![x](a.png)'', plain ''![y](http://r/i.png)''])
             \<lparr>m_isPreviewing := True, m_enablePreview := False, m_requestCearBlocks := True\<rparr>)"
    by (simp add: disableImagePreview_def exampleState_def)
qed code_simp+

text \<open>
  Claim C4, amended. When \<^verbatim>\<open>disableImagePreview\<close> runs while a scan is active, it only
  clears \<^verbatim>\<open>m_enablePreview\<close> and latches the request: the document is as before, no
  block is removed. The scan is not interrupted, but it passes over no further block:
  its loop, which goes on with the next block as long as previewing is enabled, finds
  \<^verbatim>\<open>m_enablePreview\<close> false at its next test and ends, leaving the state as it is. The
  scan then releases its guard, and only then the latched
  \<^verbatim>\<open>clearAllImagePreviewBlocks\<close> runs; the scan returns, and the document it leaves
  holds no image preview block. This is stated for documents in whose corrupted blocks
  every placeholder is a grapheme cluster of its own; what the cleanup does to the
  others is the matter of claim C8.
\<close>

theorem disable_cuts_scan_short:
  assumes "m_isPreviewing st" and "cleanable w st"
  shows "disableImagePreview w st = Some (st\<lparr>m_enablePreview := False, m_requestCearBlocks := True\<rparr>) \<and>
         (m_enablePreview st \<and> b < length (blocks st) \<longrightarrow>
            previewLoop w st b =
              (case previewStep w st b of
                 None \<Rightarrow> None
               | Some (st1, nblock) \<Rightarrow> previewLoop w st1 nblock)) \<and>
         previewLoop w (st\<lparr>m_enablePreview := False, m_requestCearBlocks := True\<rparr>) b =
           Some (st\<lparr>m_enablePreview := False, m_requestCearBlocks := True\<rparr>) \<and>
         (\<exists>st'. previewImagesFrom w (st\<lparr>m_enablePreview := False, m_requestCearBlocks := True\<rparr>) b = Some st' \<and>
                \<not> m_isPreviewing st' \<and> \<not> m_requestCearBlocks st' \<and> \<not> m_enablePreview st' \<and>
                (\<forall>j. \<not> isImagePreviewBlock st' j))"
proof -
  let ?st1 = "st\<lparr>m_enablePreview := False, m_requestCearBlocks := True\<rparr>"
  have d: "disableImagePreview w st = Some ?st1"
    using assms(1) by (simp add: disableImagePreview_def Let_def)
  have e: "m_enablePreview st \<and> b < length (blocks st) \<longrightarrow>
            previewLoop w st b =
              (case previewStep w st b of
                 None \<Rightarrow> None
               | Some (st1, nblock) \<Rightarrow> previewLoop w st1 nblock)"
    by (subst previewLoop.simps) simp
  have l: "previewLoop w ?st1 b = Some ?st1"
    by (rule previewLoop_disabled) simp
  have "blocks ?st1 = blocks st" by simp
  from cleanable_blocks[OF this] assms(2) have "cleanable w ?st1" by simp
  from finishPreview_returns[OF this] obtain st' where f: "finishPreview w ?st1 = Some st'"
    by blast
  from finishPreview_result[OF f]
  have "\<not> m_isPreviewing st'" "\<not> m_requestCearBlocks st'"
    "\<not> m_enablePreview st'" "\<forall>j. \<not> isImagePreviewBlock st' j"
    by simp_all
  with l f have "\<exists>st'. previewImagesFrom w ?st1 b = Some st' \<and>
                \<not> m_isPreviewing st' \<and> \<not> m_requestCearBlocks st' \<and> \<not> m_enablePreview st' \<and>
                (\<forall>j. \<not> isImagePreviewBlock st' j)"
    by (simp add: previewImagesFrom_def)
  with d e l show ?thesis by blast
qed

theorem disable_cuts_scan_short_witness:
  "disableImagePreview exampleWorld
     ((exampleState [plain ''a'' @ [(ObjectReplacementCharacter, None)] @ plain ''b'',
                     plain ''![x](a.png)'', previewOf ''/n/a.png''])\<lparr>m_isPreviewing := True\<rparr>) =
     Some ((exampleState [plain ''a'' @ [(ObjectReplacementCharacter, None)] @ plain ''b'',
                          plain ''![x](a.png)'', previewOf ''/n/a.png''])
             \<lparr>m_isPreviewing := True, m_enablePreview := False, m_requestCearBlocks := True\<rparr>) \<and>
   (\<exists>st'. previewImagesFrom exampleWorld
            ((exampleState [plain ''a'' @ [(ObjectReplacementCharacter, None)] @ plain ''b'',
                            plain ''![x](a.png)'', previewOf ''/n/a.png''])
               \<lparr>m_isPreviewing := True, m_enablePreview := False, m_requestCearBlocks := True\<rparr>) 1 = Some st' \<and>
          \<not> m_isPreviewing st' \<and> \<not> m_requestCearBlocks st' \<and> \<not> m_enablePreview st' \<and>
          (\<forall>j. \<not> isImagePreviewBlock st' j) \<and>
          blocks st' = [plain ''ab'', plain ''![x](a.png)''])"
proof -
  let ?S = "(exampleState [plain ''a'' @ [(ObjectReplacementCharacter, None)] @ plain ''b'',
                     plain ''![x](a.png)'', previewOf ''/n/a.png''])\<lparr>m_isPreviewing := True\<rparr>"
  have m: "m_isPreviewing ?S" by simp
  have c: "cleanable exampleWorld ?S" by code_simp
  have b: "map_option blocks
     (previewImagesFrom exampleWorld (?S\<lparr>m_enablePreview := False, m_requestCearBlocks := True\<rparr>) 1) =
     Some [plain ''ab'', plain ''![x](a.png)'']"
    by code_simp
  from disable_cuts_scan_short[OF m c, of 1] b show ?thesis
    by (auto simp: exampleState_def)
qed

subsection \<open>The scanning guard\<close>

text \<open>
  Claim C9, as stated, fails for the call the guard turns away: \<^verbatim>\<open>previewImages\<close> called
  while a scan is active returns at once and leaves \<^verbatim>\<open>m_isPreviewing\<close> and the latches
  as they are, here both true.
\<close>

theorem reentrant_call_keeps_guard:
  "previewImages exampleWorld ((exampleState [])\<lparr>m_isPreviewing := True, m_requestCearBlocks := True\<rparr>) =
     Some ((exampleState [])\<lparr>m_isPreviewing := True, m_requestCearBlocks := True\<rparr>) \<and>
   m_isPreviewing ((exampleState [])\<lparr>m_isPreviewing := True, m_requestCearBlocks := True\<rparr>) \<and>
   m_requestCearBlocks ((exampleState [])\<lparr>m_isPreviewing := True, m_requestCearBlocks := True\<rparr>)"
  by (simp add: previewImages_def exampleState_def)

text \<open>
  Claim C9, amended. A scan that is under way, whatever its state and the block its loop
  is at, returns with \<^verbatim>\<open>m_isPreviewing\<close> and both latches false; so does every call of
  \<^verbatim>\<open>previewImages\<close> that finds the guard free. A call that finds the guard set changes
  nothing. None of \<^verbatim>\<open>enableImagePreview\<close>, \<^verbatim>\<open>disableImagePreview\<close>, \<^verbatim>\<open>refresh\<close>,
  \<^verbatim>\<open>imageDownloaded\<close> and \<^verbatim>\<open>handleContentChange\<close> changes \<^verbatim>\<open>m_isPreviewing\<close>, and
  \<^verbatim>\<open>timerTimeout\<close> on an idle previewer returns an idle previewer.
\<close>

theorem scanning_guard_released:
  "(previewImagesFrom w st b = Some st' \<longrightarrow>
      \<not> m_isPreviewing st' \<and> \<not> m_requestCearBlocks st' \<and> \<not> m_requestRefreshBlocks st') \<and>
   (\<not> m_isPreviewing st \<and> previewImages w st = Some st' \<longrightarrow>
      \<not> m_isPreviewing st' \<and> \<not> m_requestCearBlocks st' \<and> \<not> m_requestRefreshBlocks st') \<and>
   (m_isPreviewing st \<longrightarrow> previewImages w st = Some st) \<and>
   m_isPreviewing (enableImagePreview w st) = m_isPreviewing st \<and>
   (disableImagePreview w st = Some st' \<longrightarrow> m_isPreviewing st' = m_isPreviewing st) \<and>
   (refresh w st = Some st' \<longrightarrow> m_isPreviewing st' = m_isPreviewing st) \<and>
   m_isPreviewing (imageDownloaded w st p_data p_url) = m_isPreviewing st \<and>
   m_isPreviewing (handleContentChange st p_position p_charsRemoved p_charsAdded) = m_isPreviewing st \<and>
   (\<not> m_isPreviewing st \<and> timerTimeout w st = Some st' \<longrightarrow> \<not> m_isPreviewing st')"
proof -
  have resumed: "\<not> m_isPreviewing s' \<and> \<not> m_requestCearBlocks s' \<and> \<not> m_requestRefreshBlocks s'"
    if "previewImagesFrom w s k = Some s'" for s k s'
  proof -
    from that obtain s1 where "finishPreview w s1 = Some s'"
      by (auto simp: previewImagesFrom_def split: Option.bind_splits)
    from finishPreview_result[OF this] show ?thesis by auto
  qed
  have images: "\<not> m_isPreviewing s' \<and> \<not> m_requestCearBlocks s' \<and> \<not> m_requestRefreshBlocks s'"
    if "\<not> m_isPreviewing s" "previewImages w s = Some s'" for s s'
    using that resumed[of "s\<lparr>m_isPreviewing := True\<rparr>" 0 s'] by (simp add: previewImages_def)
  have disable: "m_isPreviewing s' = m_isPreviewing s" if "disableImagePreview w s = Some s'" for s s'
  proof (cases "m_isPreviewing s")
    case True
    with that show ?thesis by (auto simp: disableImagePreview_def Let_def)
  next
    case False
    with that have "clearAllImagePreviewBlocks w (s\<lparr>m_enablePreview := False\<rparr>) = Some s'"
      by (simp add: disableImagePreview_def Let_def)
    from clearAll_result[OF this] False show ?thesis
      by (auto simp: sameControl_def)
  qed
  have refr: "m_isPreviewing s' = m_isPreviewing s" if "refresh w s = Some s'" for s s'
  proof (cases "m_isPreviewing s")
    case True
    with that show ?thesis by (auto simp: refresh_def)
  next
    case False
    from refresh_result[OF this that] show ?thesis by (auto simp: sameControl_def)
  qed
  have timer: "\<not> m_isPreviewing s'" if "\<not> m_isPreviewing s" "timerTimeout w s = Some s'" for s s'
    using that disable[of "s\<lparr>timerActive := False\<rparr>" s'] images[of "s\<lparr>timerActive := False\<rparr>" s']
    by (auto simp: timerTimeout_def Let_def split: if_splits)
  show ?thesis
    using resumed[of st b st'] images[of st st'] disable[of st st'] refr[of st st'] timer[of st st']
    by (auto simp: previewImages_def enableImagePreview_def imageDownloaded_def
        handleContentChange_def Let_def split: option.splits)
qed

theorem scanning_guard_released_witness:
  "\<exists>st'. previewImages exampleWorld (exampleState [plain ''![x](a.png)'']) = Some st' \<and>
         \<not> m_isPreviewing st' \<and> \<not> m_requestCearBlocks st' \<and> \<not> m_requestRefreshBlocks st'"
proof -
  have "previewImages exampleWorld (exampleState [plain ''![x](a.png)'']) \<noteq> None"
    by code_simp
  then obtain st' where s: "previewImages exampleWorld (exampleState [plain ''![x](a.png)'']) = Some st'"
    by auto
  with scanning_guard_released[of exampleWorld "exampleState [plain ''![x](a.png)'']" 0 st']
  show ?thesis by (simp add: exampleState_def)
qed

subsection \<open>Decode failures of local files\<close>

text \<open>
  Claim C6, as stated, fails: nothing records a failed decode. The same key is decoded
  again on the next call, and once the file decodes the call returns its resource name.
\<close>

theorem decode_failure_not_permanent:
  "imageCacheResourceName exampleWorld (exampleState []) (fromLatin1 ''/n/bad.png'') =
     Some (exampleState [], []) \<and>
   map_option snd
     (imageCacheResourceName (exampleWorld\<lparr>loadImage := (\<lambda>p. Some (Picture 2))\<rparr>)
        (exampleState []) (fromLatin1 ''/n/bad.png'')) = Some (fromLatin1 ''/n/bad.png'')"
  by (simp add: imageCacheResourceName_def V_ASSERT_def imagePathToCacheResourceName_def
      exampleWorld_def exampleState_def fromLatin1_def Let_def)

text \<open>
  Claim C6, amended. For a key that is not cached and names an existing local file whose
  decode fails, \<^verbatim>\<open>imageCacheResourceName\<close> returns the empty name, starts no download and
  leaves the previewer exactly as it was, so the failure is not remembered: a later call
  with the same key decodes the file again, fails again while the decode fails, and
  registers and returns the resource name when the decode succeeds.
\<close>

theorem decode_failure_is_retried:
  "(p \<noteq> [] \<and> m_imageCache st p = None \<and> fileExists w p \<and> loadImage w p = None \<longrightarrow>
      imageCacheResourceName w st p = Some (st, [])) \<and>
   (p \<noteq> [] \<and> m_imageCache st p = None \<and> fileExists w p \<and> loadImage w p = Some img \<longrightarrow>
      imageCacheResourceName w st p =
        Some (st\<lparr>resources := (resources st)(p \<mapsto> img),
                 m_imageCache := (m_imageCache st)(p \<mapsto> p)\<rparr>, p))"
  by (simp add: imageCacheResourceName_def V_ASSERT_def imagePathToCacheResourceName_def)

theorem decode_failure_is_retried_witness:
  "imageCacheResourceName exampleWorld (exampleState []) (fromLatin1 ''/n/bad.png'') =
     Some (exampleState [], []) \<and>
   imageCacheResourceName exampleWorld (exampleState []) (fromLatin1 ''/n/a.png'') =
     Some ((exampleState [])\<lparr>resources := [fromLatin1 ''/n/a.png'' \<mapsto> Picture 1],
                               m_imageCache := [fromLatin1 ''/n/a.png'' \<mapsto> fromLatin1 ''/n/a.png'']\<rparr>,
           fromLatin1 ''/n/a.png'')"
  using decode_failure_is_retried[of "fromLatin1 ''/n/bad.png''" "exampleState []" exampleWorld]
        decode_failure_is_retried[of "fromLatin1 ''/n/a.png''" "exampleState []" exampleWorld "Picture 1"]
  by (simp add: exampleWorld_def exampleState_def fromLatin1_def)

subsection \<open>Download completions of one key\<close>

text \<open>
  Claim C7. For a remote key (no local file) that is not cached, after any sequence of
  resolutions and download completions of that key the cache holds the one entry of the
  key and the document the image of the first completion that decoded; without such a
  completion cache and resources are as before. A completion for a key that is already
  cached changes nothing at all, and neither does any further sequence of events of that
  key.
\<close>

theorem first_download_wins:
  "(url \<noteq> [] \<and> \<not> fileExists w url \<and> m_imageCache st url = None \<longrightarrow>
      (\<exists>st'. keyEvents w url st es = Some st' \<and>
         (case firstDecoded w es of
            None \<Rightarrow> m_imageCache st' = m_imageCache st \<and> resources st' = resources st
          | Some img \<Rightarrow> m_imageCache st' = (m_imageCache st)(url \<mapsto> url) \<and>
                        resources st' = (resources st)(url \<mapsto> img)))) \<and>
   (m_imageCache st url \<noteq> None \<longrightarrow>
      imageDownloaded w st p_data url = st \<and> (url \<noteq> [] \<longrightarrow> keyEvents w url st es = Some st))"
  using keyEvents_uncached[of url w st es] keyEvents_cached[of url st w es]
  by (auto simp: imageDownloaded_def split: option.splits)

theorem first_download_wins_witness:
  "\<exists>st'. keyEvents exampleWorld (fromLatin1 ''http://r/i.png'') (exampleState [])
            [Resolve, Resolve, Downloaded [], Downloaded [1, 2], Resolve, Downloaded [3]] = Some st' \<and>
         m_imageCache st' = [fromLatin1 ''http://r/i.png'' \<mapsto> fromLatin1 ''http://r/i.png''] \<and>
         resources st' = [fromLatin1 ''http://r/i.png'' \<mapsto> Picture 2]"
proof -
  have hyp: "fromLatin1 ''http://r/i.png'' \<noteq> [] \<and>
             \<not> fileExists exampleWorld (fromLatin1 ''http://r/i.png'') \<and>
             m_imageCache (exampleState []) (fromLatin1 ''http://r/i.png'') = None"
    by (simp add: exampleWorld_def exampleState_def fromLatin1_def)
  have first: "firstDecoded exampleWorld
      [Resolve, Resolve, Downloaded [], Downloaded [1, 2], Resolve, Downloaded [3]] = Some (Picture 2)"
    by (simp add: exampleWorld_def)
  from first_download_wins[of "fromLatin1 ''http://r/i.png''" exampleWorld "exampleState []"
      "[Resolve, Resolve, Downloaded [], Downloaded [1, 2], Resolve, Downloaded [3]]"] hyp first
  show ?thesis by (auto simp: exampleState_def)
qed

subsection \<open>Updating an image preview block\<close>

text \<open>
  Claim C5 holds but for the modified flag: \<^verbatim>\<open>updateImagePreviewBlock\<close> with a new key that
  resolves rewrites the format through \<^verbatim>\<open>updateFormatInPreviewBlock\<close>, which, unlike
  \<^verbatim>\<open>insertImagePreviewBlock\<close>, \<^verbatim>\<open>removeBlock\<close> and \<^verbatim>\<open>clearCorruptedImagePreviewBlock\<close>,
  does not save and restore \<^verbatim>\<open>m_edit->isModified()\<close>. An unmodified document is
  modified afterwards.
\<close>

theorem update_leaves_document_modified:
  "modified (exampleState [plain ''![x](a.png)'', previewOf ''/n/old.png'']) = False \<and>
   map_option modified
     (updateImagePreviewBlock exampleWorld
        (exampleState [plain ''![x](a.png)'', previewOf ''/n/old.png'']) 1 (fromLatin1 ''/n/a.png'')) =
     Some True \<and>
   map_option blocks
     (updateImagePreviewBlock exampleWorld
        (exampleState [plain ''![x](a.png)'', previewOf ''/n/old.png'']) 1 (fromLatin1 ''/n/a.png'')) =
     Some [plain ''![x](a.png)'', previewOf ''/n/a.png'']"
  by code_simp

subsection \<open>The document after a scan\<close>

text \<open>
  Claim C1, as stated, fails where the key of a block does not resolve: the only block
  of this document refers to a remote image that is not downloaded yet; the scan asks
  for the download and inserts nothing.
\<close>

theorem unresolved_reference_gets_no_preview:
  "map_option blocks (previewImages exampleWorld (exampleState [plain ''![y](http://r/i.png)''])) =
     Some [plain ''![y](http://r/i.png)''] \<and>
   map_option downloads (previewImages exampleWorld (exampleState [plain ''![y](http://r/i.png)''])) =
     Some [fromLatin1 ''http://r/i.png''] \<and>
   fetchImageUrlToPreview (blockText (plain ''![y](http://r/i.png)'')) = fromLatin1 ''http://r/i.png''"
  by code_simp

text \<open>
  Claim C1, amended. After a run of \<^verbatim>\<open>previewImages\<close> that starts enabled, with the guard
  free and no request latched, and that returns: every image preview block is valid
  (it follows a block whose path is not empty and is the path it holds), so none is
  orphaned, and it is not followed by a second one; no other block is corrupted; and
  every block that is no image preview block, has a non-empty path and whose path
  \<^verbatim>\<open>imageCacheResourceName\<close> resolves is immediately followed by its image preview block,
  which holds that path. A block whose path does not resolve may have none.
\<close>

theorem scan_synchronizes:
  assumes "m_enablePreview st" and "\<not> m_isPreviewing st"
    and "\<not> m_requestCearBlocks st" and "\<not> m_requestRefreshBlocks st"
    and "previewImages w st = Some st'"
  shows "(\<forall>i. isImagePreviewBlock st' i \<longrightarrow>
            isValidImagePreviewBlock w st' i \<and> \<not> isImagePreviewBlock st' (Suc i)) \<and>
         (\<forall>i<length (blocks st'). \<not> isImagePreviewBlock st' i \<longrightarrow>
            \<not> corrupted (blocks st' ! i) \<and>
            (let p = fetchImagePathToPreview w (blockText (blocks st' ! i)) in
             p \<noteq> [] \<and> (\<exists>st1 n. imageCacheResourceName w st' p = Some (st1, n) \<and> n \<noteq> []) \<longrightarrow>
               isImagePreviewBlock st' (Suc i) \<and> fetchImagePathFromPreviewBlock st' (Suc i) = p))"
proof -
  from assms(5) obtain s1 where l: "previewLoop w (st\<lparr>m_isPreviewing := True\<rparr>) 0 = Some s1"
    and st': "st' = s1\<lparr>m_isPreviewing := False, statusChanged := Suc (statusChanged s1)\<rparr>"
    unfolding previewImages_unlatched[OF assms(2,3,4)] by blast
  from previewLoop_synchronizes[OF l] assms(1)
  have "synchronized w (resolves w (m_imageCache s1)) (blocks s1)" by simp
  then have sy: "synchronized w (resolves w (m_imageCache st')) (blocks st')"
    by (simp add: st')
  note nth = synchronized_nth[OF sy]
  have valid: "isValidImagePreviewBlock w st' i" if "isImagePreviewBlock st' i" for i
    using that nth[of i] by (simp add: isValidImagePreviewBlock_iff isImagePreviewBlock_isPreview)
  have single: "\<not> isImagePreviewBlock st' (Suc i)" if "isImagePreviewBlock st' i" for i
  proof
    assume "isImagePreviewBlock st' (Suc i)"
    from valid[OF this] have "pathOf w (blocks st' ! i) \<noteq> []"
      by (simp add: isValidImagePreviewBlock_iff)
    moreover from that have "pathOf w (blocks st' ! i) = []"
      by (simp add: isImagePreviewBlock_isPreview pathOf_isPreview)
    ultimately show False by simp
  qed
  have source: "\<not> corrupted (blocks st' ! i) \<and>
            (let p = fetchImagePathToPreview w (blockText (blocks st' ! i)) in
             p \<noteq> [] \<and> (\<exists>st1 n. imageCacheResourceName w st' p = Some (st1, n) \<and> n \<noteq> []) \<longrightarrow>
               isImagePreviewBlock st' (Suc i) \<and> fetchImagePathFromPreviewBlock st' (Suc i) = p)"
    if "i < length (blocks st')" "\<not> isImagePreviewBlock st' i" for i
    using that nth[of i] resolves_imageCacheResourceName[of "pathOf w (blocks st' ! i)" w st']
    by (auto simp: isImagePreviewBlock_isPreview Let_def pathOf_def
        fetchImagePathFromPreviewBlock_storedPath)
  from valid single source show ?thesis by blast
qed

theorem scan_synchronizes_witness:
  "\<exists>st'. previewImages exampleWorld (exampleState [plain ''![x](a.png)'']) = Some st' \<and>
         blocks st' = [plain ''![x](a.png)'', previewOf ''/n/a.png''] \<and>
         isImagePreviewBlock st' 1 \<and> isValidImagePreviewBlock exampleWorld st' 1 \<and>
         \<not> isImagePreviewBlock st' 2 \<and> \<not> corrupted (blocks st' ! 0)"
proof -
  from example_scan_blocks obtain st' where
    s: "previewImages exampleWorld (exampleState [plain ''![x](a.png)'']) = Some st'"
    and b: "blocks st' = [plain ''![x](a.png)'', previewOf ''/n/a.png'']"
    by auto
  have p1: "isImagePreviewBlock st' 1"
    by (simp add: isImagePreviewBlock_def b previewOf_def blockText_def trimmed_def not_isSpace_ORC)
  have p0: "\<not> isImagePreviewBlock st' 0"
    by (simp add: isImagePreviewBlock_def b plain_def blockText_def trimmed_def isSpace_def
        ObjectReplacementCharacter_def)
  from scan_synchronizes[of "exampleState [plain ''![x](a.png)'']" exampleWorld st'] s
  have "(\<forall>i. isImagePreviewBlock st' i \<longrightarrow>
            isValidImagePreviewBlock exampleWorld st' i \<and> \<not> isImagePreviewBlock st' (Suc i)) \<and>
        (\<forall>i<length (blocks st'). \<not> isImagePreviewBlock st' i \<longrightarrow> \<not> corrupted (blocks st' ! i))"
    by (simp add: exampleState_def)
  with p1 p0 s b show ?thesis by (auto simp: numeral_2_eq_2)
qed

subsection \<open>Two scans in succession\<close>

text \<open>
  Claim C2. When \<^verbatim>\<open>previewImages\<close> has returned and is run again with nothing in
  between, the second run returns and leaves the blocks of the document, with their
  texts and formats, the image resources, the cache and the modified flag exactly as
  the first run left them. The first run starts in a state in which a request is
  latched only while a scan is active, as it is in every state the previewer reaches.
\<close>

theorem scan_idempotent:
  assumes "latchedOnlyWhileScanning st" and "previewImages w st = Some st1"
  shows "\<exists>st2. previewImages w st1 = Some st2 \<and> blocks st2 = blocks st1 \<and>
           resources st2 = resources st1 \<and> m_imageCache st2 = m_imageCache st1 \<and>
           modified st2 = modified st1"
proof (cases "m_isPreviewing st")
  case True
  with assms(2) show ?thesis by (auto simp: previewImages_def)
next
  case False
  with assms(1) have u: "\<not> m_requestCearBlocks st" "\<not> m_requestRefreshBlocks st"
    by (simp_all add: latchedOnlyWhileScanning_def)
  from assms(2) obtain s1 where l: "previewLoop w (st\<lparr>m_isPreviewing := True\<rparr>) 0 = Some s1"
    and st1: "st1 = s1\<lparr>m_isPreviewing := False, statusChanged := Suc (statusChanged s1)\<rparr>"
    unfolding previewImages_unlatched[OF False u] by blast
  from sameControl_previewLoop[OF l] u st1
  have c: "\<not> m_isPreviewing st1" "\<not> m_requestCearBlocks st1" "\<not> m_requestRefreshBlocks st1"
    "m_enablePreview st1 = m_enablePreview st"
    by (simp_all add: sameControl_def)
  let ?s = "st1\<lparr>m_isPreviewing := True\<rparr>"
  have "\<exists>s2. previewLoop w ?s 0 = Some s2 \<and> blocks s2 = blocks st1 \<and>
         m_imageCache s2 = m_imageCache st1 \<and> resources s2 = resources st1 \<and>
         modified s2 = modified st1"
  proof (cases "m_enablePreview st")
    case False
    with c have "previewLoop w ?s 0 = Some ?s" by (simp add: previewLoop_disabled)
    then show ?thesis by simp
  next
    case True
    with previewLoop_synchronizes[OF l]
    have "synchronized w (resolves w (m_imageCache s1)) (blocks s1)" by simp
    then have "synchronized w (resolves w (m_imageCache ?s)) (drop 0 (blocks ?s))"
      by (simp add: st1)
    from previewLoop_stable[OF this] show ?thesis by simp
  qed
  then obtain s2 where "previewLoop w ?s 0 = Some s2" "blocks s2 = blocks st1"
    "m_imageCache s2 = m_imageCache st1" "resources s2 = resources st1" "modified s2 = modified st1"
    by blast
  then show ?thesis
    unfolding previewImages_unlatched[OF c(1,2,3)] by simp
qed

theorem scan_idempotent_witness:
  "\<exists>st1 st2. previewImages exampleWorld (exampleState [plain ''![x](a.png)'']) = Some st1 \<and>
         blocks st1 = [plain ''![x](a.png)'', previewOf ''/n/a.png''] \<and>
         previewImages exampleWorld st1 = Some st2 \<and> blocks st2 = blocks st1"
proof -
  from example_scan_blocks obtain st1 where
    s: "previewImages exampleWorld (exampleState [plain ''![x](a.png)'']) = Some st1"
    and b: "blocks st1 = [plain ''![x](a.png)'', previewOf ''/n/a.png'']"
    by auto
  from scan_idempotent[of "exampleState [plain ''![x](a.png)'']" exampleWorld st1] s
  obtain st2 where "previewImages exampleWorld st1 = Some st2" "blocks st2 = blocks st1"
    by (auto simp: exampleState_def latchedOnlyWhileScanning_def)
  with s b show ?thesis by blast
qed

end
